theory Spec2Isabelle
  imports Main
begin

section \<open>The element type and the allocator\<close>

text \<open>
  \<^verbatim>\<open>vector.h\<close> defines two class templates, \<^verbatim>\<open>RawMemory<T>\<close> and \<^verbatim>\<open>Vector<T>\<close>.
  The element type \<^verbatim>\<open>T\<close> is opaque to the container, so the embedding takes its
  special member functions as parameters. Each of them either returns or throws;
  \<open>None\<close> is the throw. A move also says in which state it leaves its source.
  The two type traits that \<^verbatim>\<open>CopyOrMoveNElem\<close> tests with \<^verbatim>\<open>if constexpr\<close> are
  fields as well.

  The last field is the allocator. \<^verbatim>\<open>RawMemory::Allocate(n)\<close> calls
  \<^verbatim>\<open>operator new(n * sizeof(T))\<close> with the product taken in \<^verbatim>\<open>size_t\<close>, where it
  wraps. \<open>operator_new E n\<close> is what that call gives for the count \<open>n\<close>:
  \<^item> \<open>NoMemory\<close>: it throws \<^verbatim>\<open>std::bad_alloc\<close>;
  \<^item> \<open>Room\<close>: the product did not wrap and the block has room for \<open>n\<close> elements;
  \<^item> \<open>Short k\<close>: the product wrapped, and the block that \<^verbatim>\<open>operator new\<close> returned
    for the wrapped byte count has room for \<open>k\<close> elements only.

  \<open>size_t_new\<close> below is the allocator of a machine whose \<^verbatim>\<open>size_t\<close> has a given
  number of bits, for a given \<^verbatim>\<open>sizeof(T)\<close>. A product that wrapped is less than
  half of the true product, so a short block has room for fewer than half of
  the \<open>n\<close> elements asked for (\<open>size_t_new_Short\<close>). \<open>Allocate\<close> cuts \<open>k\<close> to this
  bound, so that it holds for every allocator of the model and not only for
  \<open>size_t_new\<close>, where the cut changes nothing (\<open>Allocate_size_t_new\<close>).

  The lengths and capacities themselves are modelled by \<open>nat\<close>: they are bounded
  by the number of elements that fit in memory, so \<^verbatim>\<open>size_ + 1\<close> and \<^verbatim>\<open>size_ * 2\<close>
  do not wrap for a vector that exists.
\<close>

datatype error = BadAlloc | ElemThrow | AssertFailed | UndefinedBehaviour

datatype alloc = NoMemory | Room | Short nat

record 'a env =
  value_init :: "'a option"
  copy_ctor :: "'a \<Rightarrow> 'a option"
  move_ctor :: "'a \<Rightarrow> ('a \<times> 'a) option"
  copy_assign :: "'a \<Rightarrow> 'a \<Rightarrow> 'a option"
  move_assign :: "'a \<Rightarrow> 'a \<Rightarrow> ('a \<times> 'a) option"
  is_nothrow_move_constructible :: bool
  is_copy_constructible :: bool
  operator_new :: "nat \<Rightarrow> alloc"

text \<open>
  \<open>copy_ctor E x\<close> is \<^verbatim>\<open>T(x)\<close> for \<^verbatim>\<open>const T& x\<close>: the new object.
  \<open>move_ctor E x\<close> is \<^verbatim>\<open>T(std::move(x))\<close>: the new object and what is left in \<open>x\<close>.
  \<open>copy_assign E d s\<close> is \<^verbatim>\<open>d = s\<close>: the new \<open>d\<close>.
  \<open>move_assign E d s\<close> is \<^verbatim>\<open>d = std::move(s)\<close>: the new \<open>d\<close> and what is left in \<open>s\<close>.
  An assignment that throws is taken to leave both operands as they were.
\<close>

section \<open>Raw storage\<close>

text \<open>
  A slot of raw storage either holds a live object (\<open>Some x\<close>) or is uninitialised
  (\<open>None\<close>). A block is the list of its slots; \<^verbatim>\<open>nullptr\<close> is the empty block.
  Pointers into a block are offsets from its start. The members \<^verbatim>\<open>buffer_\<close> and
  \<^verbatim>\<open>capacity_\<close> are the fields \<open>buffer_m\<close> and \<open>capacity_m\<close>.
\<close>

type_synonym 'a slot = "'a option"

record 'a RawMemory =
  buffer_m :: "'a slot list"
  capacity_m :: nat

definition Allocate :: "'a env \<Rightarrow> nat \<Rightarrow> error + 'a slot list" where
  "Allocate E n =
     (if n \<noteq> 0 then
        (case operator_new E n of
           NoMemory \<Rightarrow> Inl BadAlloc
         | Room \<Rightarrow> Inr (replicate n None)
         | Short k \<Rightarrow> Inr (replicate (min k ((n - 1) div 2)) None))
      else Inr [])"

text \<open>
  \<^verbatim>\<open>operator new(n * sizeof(T))\<close> on a machine whose \<^verbatim>\<open>size_t\<close> has \<open>bits\<close> bits, for
  \<^verbatim>\<open>sizeof(T) = s\<close> and a heap that grants a request for \<open>b\<close> bytes when \<open>heap b\<close>.
\<close>

definition size_t_new :: "nat \<Rightarrow> nat \<Rightarrow> (nat \<Rightarrow> bool) \<Rightarrow> nat \<Rightarrow> alloc" where
  "size_t_new bits s heap n =
     (let bytes = (n * s) mod 2 ^ bits in
      if \<not> heap bytes then NoMemory
      else if n * s < 2 ^ bits then Room
      else Short (bytes div s))"

definition RawMemory_default :: "'a RawMemory" where
  "RawMemory_default = \<lparr>buffer_m = [], capacity_m = 0\<rparr>"

definition RawMemory_sized :: "'a env \<Rightarrow> nat \<Rightarrow> error + 'a RawMemory" where
  "RawMemory_sized E capacity =
     (case Allocate E capacity of
        Inl e \<Rightarrow> Inl e
      | Inr b \<Rightarrow> Inr \<lparr>buffer_m = b, capacity_m = capacity\<rparr>)"

definition RawMemory_Swap :: "'a RawMemory \<times> 'a RawMemory \<Rightarrow> 'a RawMemory \<times> 'a RawMemory" where
  "RawMemory_Swap p =
     (case p of (this, other) \<Rightarrow>
        (\<lparr>buffer_m = buffer_m other, capacity_m = capacity_m other\<rparr>,
         \<lparr>buffer_m = buffer_m this, capacity_m = capacity_m this\<rparr>))"

definition RawMemory_Capacity :: "'a RawMemory \<Rightarrow> nat" where
  "RawMemory_Capacity m = capacity_m m"

text \<open>Reading the object in a slot: \<open>None\<close> when the slot is outside the block or dead.\<close>

definition live :: "'a slot list \<Rightarrow> nat \<Rightarrow> 'a option" where
  "live buf i = (if i < length buf then buf ! i else None)"

section \<open>The standard algorithms the vector calls\<close>

text \<open>
  The algorithms of \<^verbatim>\<open><memory>\<close> and \<^verbatim>\<open><algorithm>\<close> are written out as the loops the
  standard gives for them. Reading a slot that holds no object, and constructing
  an object at an address outside the block, are undefined behaviour and end the
  call with \<open>UndefinedBehaviour\<close>. Destructors need no such check: the vector runs
  them only on slots in which it has constructed an object, and it constructs
  objects only inside the block. A void function returns
  \<open>None\<close> when it returns and \<open>Some e\<close> when it leaves with \<open>e\<close>, together with
  the memory as it then is.
\<close>

fun destroy_n :: "'a slot list \<Rightarrow> nat \<Rightarrow> nat \<Rightarrow> 'a slot list" where
  "destroy_n buf first 0 = buf"
| "destroy_n buf first (Suc n) = destroy_n (buf[first := None]) (Suc first) n"

text \<open>
  \<^verbatim>\<open>std::uninitialized_value_construct_n\<close>, \<^verbatim>\<open>std::uninitialized_copy_n\<close> and
  \<^verbatim>\<open>std::uninitialized_move_n\<close> construct \<open>n\<close> objects in raw slots; when a
  constructor throws they destroy the objects they have built and rethrow.
\<close>

fun uninitialized_value_construct_n ::
  "'a env \<Rightarrow> 'a slot list \<Rightarrow> nat \<Rightarrow> nat \<Rightarrow> error option \<times> 'a slot list" where
  "uninitialized_value_construct_n E buf first 0 = (None, buf)"
| "uninitialized_value_construct_n E buf first (Suc n) =
     (if \<not> first < length buf then (Some UndefinedBehaviour, buf)
      else
        (case value_init E of
           None \<Rightarrow> (Some ElemThrow, buf)
         | Some y \<Rightarrow>
            (case uninitialized_value_construct_n E (buf[first := Some y]) (Suc first) n of
               (None, buf') \<Rightarrow> (None, buf')
             | (Some e, buf') \<Rightarrow> (Some e, buf'[first := None]))))"

text \<open>Source and destination in two different blocks; the source is read only.\<close>

fun uninitialized_copy_n ::
  "'a env \<Rightarrow> 'a slot list \<Rightarrow> nat \<Rightarrow> nat \<Rightarrow> 'a slot list \<Rightarrow> nat \<Rightarrow> error option \<times> 'a slot list" where
  "uninitialized_copy_n E src first 0 dst d_first = (None, dst)"
| "uninitialized_copy_n E src first (Suc n) dst d_first =
     (if \<not> d_first < length dst then (Some UndefinedBehaviour, dst)
      else
        (case live src first of
           None \<Rightarrow> (Some UndefinedBehaviour, dst)
         | Some x \<Rightarrow>
            (case copy_ctor E x of
               None \<Rightarrow> (Some ElemThrow, dst)
             | Some y \<Rightarrow>
                (case uninitialized_copy_n E src (Suc first) n (dst[d_first := Some y]) (Suc d_first) of
                   (None, dst') \<Rightarrow> (None, dst')
                 | (Some e, dst') \<Rightarrow> (Some e, dst'[d_first := None])))))"

text \<open>Source and destination in two different blocks; a move writes to its source.\<close>

fun uninitialized_move_n ::
  "'a env \<Rightarrow> 'a slot list \<Rightarrow> nat \<Rightarrow> nat \<Rightarrow> 'a slot list \<Rightarrow> nat
     \<Rightarrow> error option \<times> 'a slot list \<times> 'a slot list" where
  "uninitialized_move_n E src first 0 dst d_first = (None, src, dst)"
| "uninitialized_move_n E src first (Suc n) dst d_first =
     (if \<not> d_first < length dst then (Some UndefinedBehaviour, src, dst)
      else
        (case live src first of
           None \<Rightarrow> (Some UndefinedBehaviour, src, dst)
         | Some x \<Rightarrow>
            (case move_ctor E x of
               None \<Rightarrow> (Some ElemThrow, src, dst)
             | Some (y, x') \<Rightarrow>
                (case uninitialized_move_n E (src[first := Some x']) (Suc first) n
                        (dst[d_first := Some y]) (Suc d_first) of
                   (None, src', dst') \<Rightarrow> (None, src', dst')
                 | (Some e, src', dst') \<Rightarrow> (Some e, src', dst'[d_first := None])))))"

text \<open>The same two algorithms when both ranges lie in one block.\<close>

fun uninitialized_copy_n_same ::
  "'a env \<Rightarrow> 'a slot list \<Rightarrow> nat \<Rightarrow> nat \<Rightarrow> nat \<Rightarrow> error option \<times> 'a slot list" where
  "uninitialized_copy_n_same E buf first 0 d_first = (None, buf)"
| "uninitialized_copy_n_same E buf first (Suc n) d_first =
     (if \<not> d_first < length buf then (Some UndefinedBehaviour, buf)
      else
        (case live buf first of
           None \<Rightarrow> (Some UndefinedBehaviour, buf)
         | Some x \<Rightarrow>
            (case copy_ctor E x of
               None \<Rightarrow> (Some ElemThrow, buf)
             | Some y \<Rightarrow>
                (case uninitialized_copy_n_same E (buf[d_first := Some y]) (Suc first) n (Suc d_first) of
                   (None, buf') \<Rightarrow> (None, buf')
                 | (Some e, buf') \<Rightarrow> (Some e, buf'[d_first := None])))))"

fun uninitialized_move_n_same ::
  "'a env \<Rightarrow> 'a slot list \<Rightarrow> nat \<Rightarrow> nat \<Rightarrow> nat \<Rightarrow> error option \<times> 'a slot list" where
  "uninitialized_move_n_same E buf first 0 d_first = (None, buf)"
| "uninitialized_move_n_same E buf first (Suc n) d_first =
     (if \<not> d_first < length buf then (Some UndefinedBehaviour, buf)
      else
        (case live buf first of
           None \<Rightarrow> (Some UndefinedBehaviour, buf)
         | Some x \<Rightarrow>
            (case move_ctor E x of
               None \<Rightarrow> (Some ElemThrow, buf)
             | Some (y, x') \<Rightarrow>
                (case uninitialized_move_n_same E (buf[first := Some x', d_first := Some y])
                        (Suc first) n (Suc d_first) of
                   (None, buf') \<Rightarrow> (None, buf')
                 | (Some e, buf') \<Rightarrow> (Some e, buf'[d_first := None])))))"

text \<open>
  \<^verbatim>\<open>std::copy(first, last, d_first)\<close> copy-assigns onto live objects of another
  block, front to back.
\<close>

function std_copy ::
  "'a env \<Rightarrow> 'a slot list \<Rightarrow> nat \<Rightarrow> nat \<Rightarrow> 'a slot list \<Rightarrow> nat \<Rightarrow> error option \<times> 'a slot list" where
  "std_copy E src first last' dst d_first =
     (if first < last' then
        (case (live src first, live dst d_first) of
           (Some x, Some d) \<Rightarrow>
             (case copy_assign E d x of
                None \<Rightarrow> (Some ElemThrow, dst)
              | Some d' \<Rightarrow> std_copy E src (Suc first) last' (dst[d_first := Some d']) (Suc d_first))
         | _ \<Rightarrow> (Some UndefinedBehaviour, dst))
      else (None, dst))"
  by pat_completeness auto
termination
  by (relation "measure (\<lambda>(E, src, first, last', dst, d_first). last' - first)") auto

text \<open>
  \<^verbatim>\<open>std::move(first, last, d_first)\<close> move-assigns front to back and
  \<^verbatim>\<open>std::move_backward(first, last, d_last)\<close> back to front; the vector calls both
  with source and destination in its own block.
\<close>

definition move_assign_at :: "'a env \<Rightarrow> 'a slot list \<Rightarrow> nat \<Rightarrow> nat \<Rightarrow> error + 'a slot list" where
  "move_assign_at E buf d s =
     (case (live buf s, live buf d) of
        (Some x, Some y) \<Rightarrow>
          (case move_assign E y x of
             None \<Rightarrow> Inl ElemThrow
           | Some (y', x') \<Rightarrow> Inr (buf[s := Some x', d := Some y']))
      | _ \<Rightarrow> Inl UndefinedBehaviour)"

function std_move ::
  "'a env \<Rightarrow> 'a slot list \<Rightarrow> nat \<Rightarrow> nat \<Rightarrow> nat \<Rightarrow> error option \<times> 'a slot list" where
  "std_move E buf first last' d_first =
     (if first < last' then
        (case move_assign_at E buf d_first first of
           Inl e \<Rightarrow> (Some e, buf)
         | Inr buf' \<Rightarrow> std_move E buf' (Suc first) last' (Suc d_first))
      else (None, buf))"
  by pat_completeness auto
termination
  by (relation "measure (\<lambda>(E, buf, first, last', d_first). last' - first)") auto

function std_move_backward ::
  "'a env \<Rightarrow> 'a slot list \<Rightarrow> nat \<Rightarrow> nat \<Rightarrow> nat \<Rightarrow> error option \<times> 'a slot list" where
  "std_move_backward E buf first last' d_last =
     (if first < last' then
        (case move_assign_at E buf (d_last - 1) (last' - 1) of
           Inl e \<Rightarrow> (Some e, buf)
         | Inr buf' \<Rightarrow> std_move_backward E buf' first (last' - 1) (d_last - 1))
      else (None, buf))"
  by pat_completeness auto
termination
  by (relation "measure (\<lambda>(E, buf, first, last', d_last). last' - first)") auto

declare std_copy.simps [simp del] std_move.simps [simp del] std_move_backward.simps [simp del]

section \<open>The vector\<close>

text \<open>
  The members \<^verbatim>\<open>data_\<close> and \<^verbatim>\<open>size_\<close> are the fields \<open>data_v\<close> and \<open>size_v\<close>.
  An iterator is the offset of its slot from \<^verbatim>\<open>data_.GetAddress()\<close>, so \<^verbatim>\<open>begin()\<close> is
  \<open>0\<close> and \<^verbatim>\<open>end()\<close> is \<open>size_v\<close>. An \<^verbatim>\<open>assert\<close> that fails ends the call with
  \<open>AssertFailed\<close> and leaves the vector as it is. The assertions inside
  \<^verbatim>\<open>RawMemory::operator+\<close> and \<^verbatim>\<open>RawMemory::operator[]\<close> bound offsets by the
  capacity; the vector only passes offsets up to its length (or, into a new
  block, up to the new capacity), so they hold whenever the length is at most
  the capacity, which every operation keeps, and are not modelled as separate
  failures. A block can still be shorter than \<^verbatim>\<open>capacity_\<close> says, after a wrapped
  byte count; constructing an object outside the block is undefined behaviour.
  Every operation
  returns its result, or the error it leaves with, next to the vector as the
  call leaves it.
\<close>

record 'a Vector =
  data_v :: "'a RawMemory"
  size_v :: nat

text \<open>
  The static helpers take a pointer into a block; the model passes the block and
  the offset. \<^verbatim>\<open>DestroyN\<close> and \<^verbatim>\<open>CopyConstruct\<close> are not called by the vector's
  own operations.
\<close>

definition Destroy :: "'a slot list \<Rightarrow> nat \<Rightarrow> 'a slot list" where
  "Destroy buf buffer = buf[buffer := None]"

fun DestroyN :: "'a slot list \<Rightarrow> nat \<Rightarrow> nat \<Rightarrow> 'a slot list" where
  "DestroyN buf buffer 0 = buf"
| "DestroyN buf buffer (Suc n) = DestroyN (Destroy buf buffer) (Suc buffer) n"

definition CopyConstruct :: "'a env \<Rightarrow> 'a slot list \<Rightarrow> nat \<Rightarrow> 'a \<Rightarrow> error option \<times> 'a slot list" where
  "CopyConstruct E buf buffer elem =
     (if \<not> buffer < length buf then (Some UndefinedBehaviour, buf)
      else
        (case copy_ctor E elem of
           None \<Rightarrow> (Some ElemThrow, buf)
         | Some y \<Rightarrow> (None, buf[buffer := Some y])))"

definition use_move :: "'a env \<Rightarrow> bool" where
  "use_move E = (is_nothrow_move_constructible E \<or> \<not> is_copy_constructible E)"

text \<open>
  \<^verbatim>\<open>CopyOrMoveNElem(buffer, count, new_buffer)\<close> for a source range in one block and
  a destination range in another: the source block and the destination block as
  the call leaves them.
\<close>

definition CopyOrMoveNElem ::
  "'a env \<Rightarrow> 'a slot list \<Rightarrow> nat \<Rightarrow> nat \<Rightarrow> 'a slot list \<Rightarrow> nat
     \<Rightarrow> error option \<times> 'a slot list \<times> 'a slot list" where
  "CopyOrMoveNElem E src buffer count dst new_buffer =
     (if use_move E then uninitialized_move_n E src buffer count dst new_buffer
      else (case uninitialized_copy_n E src buffer count dst new_buffer of
              (r, dst') \<Rightarrow> (r, src, dst')))"

text \<open>The same call when \<^verbatim>\<open>buffer\<close> and \<^verbatim>\<open>new_buffer\<close> point into one block.\<close>

definition CopyOrMoveNElem_same ::
  "'a env \<Rightarrow> 'a slot list \<Rightarrow> nat \<Rightarrow> nat \<Rightarrow> nat \<Rightarrow> error option \<times> 'a slot list" where
  "CopyOrMoveNElem_same E buf buffer count new_buffer =
     (if use_move E then uninitialized_move_n_same E buf buffer count new_buffer
      else uninitialized_copy_n_same E buf buffer count new_buffer)"

definition Vector_default :: "'a Vector" where
  "Vector_default = \<lparr>data_v = RawMemory_default, size_v = 0\<rparr>"

definition Vector_sized :: "'a env \<Rightarrow> nat \<Rightarrow> error + 'a Vector" where
  "Vector_sized E n =
     (case RawMemory_sized E n of
        Inl e \<Rightarrow> Inl e
      | Inr d \<Rightarrow>
         (case uninitialized_value_construct_n E (buffer_m d) 0 n of
            (Some e, b) \<Rightarrow> Inl e
          | (None, b) \<Rightarrow> Inr \<lparr>data_v = d\<lparr>buffer_m := b\<rparr>, size_v = n\<rparr>))"

definition Vector_copy :: "'a env \<Rightarrow> 'a Vector \<Rightarrow> error + 'a Vector" where
  "Vector_copy E other =
     (case RawMemory_sized E (size_v other) of
        Inl e \<Rightarrow> Inl e
      | Inr d \<Rightarrow>
         (case uninitialized_copy_n E (buffer_m (data_v other)) 0 (size_v other) (buffer_m d) 0 of
            (Some e, b) \<Rightarrow> Inl e
          | (None, b) \<Rightarrow> Inr \<lparr>data_v = d\<lparr>buffer_m := b\<rparr>, size_v = size_v other\<rparr>))"

text \<open>
  \<^verbatim>\<open>Swap\<close> on two distinct objects: \<open>this\<close> and \<open>other\<close> as the call leaves them.
\<close>

definition Swap :: "'a Vector \<times> 'a Vector \<Rightarrow> 'a Vector \<times> 'a Vector" where
  "Swap p =
     (case p of (this, other) \<Rightarrow>
        (case RawMemory_Swap (data_v this, data_v other) of
           (d, d') \<Rightarrow> (\<lparr>data_v = d, size_v = size_v other\<rparr>, \<lparr>data_v = d', size_v = size_v this\<rparr>)))"

text \<open>
  The move constructor swaps a member-initialised vector with \<open>other\<close>: the new
  object and \<open>other\<close> as the constructor leaves it.
\<close>

definition Vector_move :: "'a Vector \<Rightarrow> 'a Vector \<times> 'a Vector" where
  "Vector_move other = Swap (Vector_default, other)"

text \<open>
  The assignment operators compare the addresses of their operands, so they are
  modelled on a store of vector objects, addressed by numbers.
\<close>

type_synonym 'a objects = "nat \<Rightarrow> 'a Vector"

definition Swap_at :: "nat \<Rightarrow> nat \<Rightarrow> 'a objects \<Rightarrow> 'a objects" where
  "Swap_at this other st =
     (case Swap (st this, st other) of (a, b) \<Rightarrow> st(this := a, other := b))"

definition set_buffer :: "'a Vector \<Rightarrow> 'a slot list \<Rightarrow> 'a Vector" where
  "set_buffer v b = v\<lparr>data_v := (data_v v)\<lparr>buffer_m := b\<rparr>\<rparr>"

text \<open>
  The branch of copy assignment taken when the capacity suffices, on \<open>this\<close> and
  a distinct \<open>other\<close>: \<open>this\<close> as the branch leaves it.
\<close>

definition assign_copy_reuse :: "'a env \<Rightarrow> 'a Vector \<Rightarrow> 'a Vector \<Rightarrow> error option \<times> 'a Vector" where
  "assign_copy_reuse E this other =
     (case std_copy E (buffer_m (data_v other)) 0 (min (size_v this) (size_v other))
             (buffer_m (data_v this)) 0 of
        (Some e, b) \<Rightarrow> (Some e, set_buffer this b)
      | (None, b) \<Rightarrow>
         (if size_v this < size_v other then
            (case uninitialized_copy_n E (buffer_m (data_v other)) (size_v this)
                    (size_v other - size_v this) b (size_v this) of
               (Some e, b') \<Rightarrow> (Some e, set_buffer this b')
             | (None, b') \<Rightarrow> (None, (set_buffer this b')\<lparr>size_v := size_v other\<rparr>))
          else
            (None, (set_buffer this (destroy_n b (size_v other) (size_v this - size_v other)))
                     \<lparr>size_v := size_v other\<rparr>)))"

definition assign_copy :: "'a env \<Rightarrow> nat \<Rightarrow> nat \<Rightarrow> 'a objects \<Rightarrow> error option \<times> 'a objects" where
  "assign_copy E this other st =
     (if this \<noteq> other then
        (if capacity_m (data_v (st this)) < size_v (st other) then
           (case Vector_copy E (st other) of
              Inl e \<Rightarrow> (Some e, st)
            | Inr copy \<Rightarrow> (None, st(this := fst (Swap (st this, copy)))))
         else
           (case assign_copy_reuse E (st this) (st other) of
              (r, v) \<Rightarrow> (r, st(this := v))))
      else (None, st))"

definition assign_move :: "nat \<Rightarrow> nat \<Rightarrow> 'a objects \<Rightarrow> 'a objects" where
  "assign_move this other st = (if this \<noteq> other then Swap_at this other st else st)"

definition Reserve :: "'a env \<Rightarrow> nat \<Rightarrow> 'a Vector \<Rightarrow> error option \<times> 'a Vector" where
  "Reserve E new_capacity v =
     (if capacity_m (data_v v) < new_capacity then
        (case RawMemory_sized E new_capacity of
           Inl e \<Rightarrow> (Some e, v)
         | Inr new_data \<Rightarrow>
            (case CopyOrMoveNElem E (buffer_m (data_v v)) 0 (size_v v) (buffer_m new_data) 0 of
               (Some e, old, new) \<Rightarrow> (Some e, set_buffer v old)
             | (None, old, new) \<Rightarrow>
                (None, v\<lparr>data_v := fst (RawMemory_Swap
                   ((data_v v)\<lparr>buffer_m := destroy_n old 0 (size_v v)\<rparr>,
                    new_data\<lparr>buffer_m := new\<rparr>))\<rparr>)))
      else (None, v))"

definition Resize :: "'a env \<Rightarrow> nat \<Rightarrow> 'a Vector \<Rightarrow> error option \<times> 'a Vector" where
  "Resize E new_size v =
     (if new_size = size_v v then (None, v)
      else if new_size < size_v v then
        (None, (set_buffer v (destroy_n (buffer_m (data_v v)) new_size (size_v v - new_size)))
                 \<lparr>size_v := new_size\<rparr>)
      else
        (case Reserve E new_size v of
           (Some e, v') \<Rightarrow> (Some e, v')
         | (None, v') \<Rightarrow>
            (case uninitialized_value_construct_n E (buffer_m (data_v v')) (size_v v')
                    (new_size - size_v v') of
               (Some e, b) \<Rightarrow> (Some e, set_buffer v' b)
             | (None, b) \<Rightarrow> (None, (set_buffer v' b)\<lparr>size_v := new_size\<rparr>))))"

definition PopBack :: "'a Vector \<Rightarrow> 'a Vector" where
  "PopBack v =
     (if size_v v > 0 then
        (set_buffer v ((buffer_m (data_v v))[size_v v - 1 := None]))\<lparr>size_v := size_v v - 1\<rparr>
      else v)"

definition Size :: "'a Vector \<Rightarrow> nat" where
  "Size v = size_v v"

definition Capacity :: "'a Vector \<Rightarrow> nat" where
  "Capacity v = RawMemory_Capacity (data_v v)"

definition index_op :: "'a Vector \<Rightarrow> nat \<Rightarrow> error + 'a" where
  "index_op v index =
     (if index < size_v v then
        (case live (buffer_m (data_v v)) index of
           None \<Rightarrow> Inl UndefinedBehaviour
         | Some x \<Rightarrow> Inr x)
      else Inl AssertFailed)"

subsection \<open>Emplace, Insert, Erase\<close>

text \<open>
  \<^verbatim>\<open>Emplace(pos, args...)\<close> builds the new element with \<^verbatim>\<open>T(args...)\<close>. The arguments
  are modelled by what the constructor does with them:
  \<^item> \<open>Args r\<close>: arguments that do not refer to the vector; \<open>r\<close> is the object the
    constructor builds from them, \<open>None\<close> when it throws;
  \<^item> \<open>ConstRef (Outside x)\<close>: a \<^verbatim>\<open>const T&\<close> to an object \<open>x\<close> outside the vector,
    copy-constructed;
  \<^item> \<open>ConstRef (Own j)\<close>: a \<^verbatim>\<open>const T&\<close> to the vector's own element \<open>j\<close>,
    copy-constructed from what slot \<open>j\<close> holds when the constructor runs;
  \<^item> \<open>Rvalue x\<close>: a \<^verbatim>\<open>T&&\<close> to an object \<open>x\<close> outside the vector, move-constructed.

  A caller that passes \<^verbatim>\<open>std::move\<close> of one of the vector's own elements asks for
  that element to be changed by the call; such calls are outside the model.
\<close>

datatype 'a cref = Outside 'a | Own nat

datatype 'a ctor_args = Args "'a option" | ConstRef "'a cref" | Rvalue 'a

fun construct :: "'a env \<Rightarrow> 'a ctor_args \<Rightarrow> 'a slot list \<Rightarrow> error + 'a" where
  "construct E (Args r) buf = (case r of None \<Rightarrow> Inl ElemThrow | Some y \<Rightarrow> Inr y)"
| "construct E (ConstRef (Outside x)) buf =
     (case copy_ctor E x of None \<Rightarrow> Inl ElemThrow | Some y \<Rightarrow> Inr y)"
| "construct E (ConstRef (Own j)) buf =
     (case live buf j of
        None \<Rightarrow> Inl UndefinedBehaviour
      | Some x \<Rightarrow> (case copy_ctor E x of None \<Rightarrow> Inl ElemThrow | Some y \<Rightarrow> Inr y))"
| "construct E (Rvalue x) buf =
     (case move_ctor E x of None \<Rightarrow> Inl ElemThrow | Some (y, x') \<Rightarrow> Inr y)"

text \<open>
  The offsets on which \<^verbatim>\<open>std::destroy_n(first, n)\<close> runs a destructor, in the order
  of the calls.
\<close>

fun destroy_n_calls :: "nat \<Rightarrow> nat \<Rightarrow> nat list" where
  "destroy_n_calls first 0 = []"
| "destroy_n_calls first (Suc n) = first # destroy_n_calls (Suc first) n"

text \<open>
  The branch of \<^verbatim>\<open>Emplace\<close> taken when the capacity is used up, up to
  \<^verbatim>\<open>data_.Swap(new_data_)\<close>. The third component is the local \<^verbatim>\<open>new_data_\<close> as its
  destructor finds it (\<open>None\<close> when its allocation threw): on a throw the new block,
  otherwise the old block that the swap handed to it. The fourth component lists
  the offsets in the new block on which the two \<^verbatim>\<open>catch\<close> handlers run a
  destructor: \<^verbatim>\<open>(new_data_ + index)->~T()\<close> in the first,
  \<^verbatim>\<open>std::destroy_n(new_data_.GetAddress(), index + 1)\<close> in the second.
\<close>

definition Emplace_realloc ::
  "'a env \<Rightarrow> nat \<Rightarrow> 'a ctor_args \<Rightarrow> 'a Vector
     \<Rightarrow> error option \<times> 'a Vector \<times> 'a RawMemory option \<times> nat list" where
  "Emplace_realloc E index args v =
     (case RawMemory_sized E (if size_v v = 0 then 1 else size_v v * 2) of
        Inl e \<Rightarrow> (Some e, v, None, [])
      | Inr new_data \<Rightarrow>
         (case construct E args (buffer_m (data_v v)) of
            Inl e \<Rightarrow> (Some e, v, Some new_data, [])
          | Inr x \<Rightarrow>
             (if \<not> index < length (buffer_m new_data) then
                (Some UndefinedBehaviour, v, Some new_data, [])
              else
                (case CopyOrMoveNElem E (buffer_m (data_v v)) 0 index
                        ((buffer_m new_data)[index := Some x]) 0 of
                   (Some e, old1, new1) \<Rightarrow>
                     (Some e, set_buffer v old1,
                      Some (new_data\<lparr>buffer_m := new1[index := None]\<rparr>), [index])
                 | (None, old1, new1) \<Rightarrow>
                    (case CopyOrMoveNElem E old1 index (size_v v - index) new1 (index + 1) of
                       (Some e, old2, new2) \<Rightarrow>
                         (Some e, set_buffer v old2,
                          Some (new_data\<lparr>buffer_m := destroy_n new2 0 (index + 1)\<rparr>),
                          destroy_n_calls 0 (index + 1))
                     | (None, old2, new2) \<Rightarrow>
                        (case RawMemory_Swap ((data_v v)\<lparr>buffer_m := destroy_n old2 0 (size_v v)\<rparr>,
                                              new_data\<lparr>buffer_m := new2\<rparr>) of
                           (d, d') \<Rightarrow> (None, v\<lparr>data_v := d\<rparr>, Some d', [])))))))"

text \<open>
  The branch taken when the capacity suffices and \<^verbatim>\<open>pos\<close> is not \<^verbatim>\<open>end()\<close>. The new
  value is built in a heap object of its own (\<^verbatim>\<open>new T(...)\<close>, which needs room for
  one element and has no product to wrap), then the last element is relocated
  into the free slot, the
  range from \<open>index\<close> is shifted, and the value is move-assigned into slot
  \<open>index\<close>.
\<close>

definition Emplace_shift ::
  "'a env \<Rightarrow> nat \<Rightarrow> 'a ctor_args \<Rightarrow> 'a Vector \<Rightarrow> error option \<times> 'a Vector" where
  "Emplace_shift E index args v =
     (if operator_new E 1 = NoMemory then (Some BadAlloc, v)
      else
        (case construct E args (buffer_m (data_v v)) of
           Inl e \<Rightarrow> (Some e, v)
         | Inr val \<Rightarrow>
            (case CopyOrMoveNElem_same E (buffer_m (data_v v)) (size_v v - 1) 1 (size_v v) of
               (Some e, b1) \<Rightarrow> (Some e, set_buffer v b1)
             | (None, b1) \<Rightarrow>
                (case std_move_backward E b1 index (size_v v - 1) (size_v v) of
                   (Some e, b2) \<Rightarrow> (Some e, set_buffer v b2)
                 | (None, b2) \<Rightarrow>
                    (case live b2 index of
                       None \<Rightarrow> (Some UndefinedBehaviour, set_buffer v b2)
                     | Some y \<Rightarrow>
                        (case move_assign E y val of
                           None \<Rightarrow> (Some ElemThrow, set_buffer v b2)
                         | Some (y', val') \<Rightarrow> (None, set_buffer v (b2[index := Some y']))))))))"

definition Emplace :: "'a env \<Rightarrow> nat \<Rightarrow> 'a ctor_args \<Rightarrow> 'a Vector \<Rightarrow> (error + nat) \<times> 'a Vector" where
  "Emplace E pos args v =
     (if \<not> pos \<le> size_v v then (Inl AssertFailed, v)
      else
        (let index = pos in
         if capacity_m (data_v v) \<ge> size_v v + 1 then
           (if pos = size_v v then
              (case construct E args (buffer_m (data_v v)) of
                 Inl e \<Rightarrow> (Inl e, v)
               | Inr x \<Rightarrow>
                  (if \<not> size_v v < length (buffer_m (data_v v)) then (Inl UndefinedBehaviour, v)
                   else
                     (let v' = (set_buffer v ((buffer_m (data_v v))[size_v v := Some x]))
                                 \<lparr>size_v := size_v v + 1\<rparr>
                      in (Inr (size_v v' - 1), v'))))
            else
              (case Emplace_shift E index args v of
                 (Some e, v') \<Rightarrow> (Inl e, v')
               | (None, v') \<Rightarrow> (Inr index, v'\<lparr>size_v := size_v v' + 1\<rparr>)))
         else
           (case Emplace_realloc E index args v of
              (Some e, v', m) \<Rightarrow> (Inl e, v')
            | (None, v', m) \<Rightarrow> (Inr index, v'\<lparr>size_v := size_v v' + 1\<rparr>))))"

definition EmplaceBack :: "'a env \<Rightarrow> 'a ctor_args \<Rightarrow> 'a Vector \<Rightarrow> (error + nat) \<times> 'a Vector" where
  "EmplaceBack E args v = Emplace E (size_v v) args v"

text \<open>\<^verbatim>\<open>PushBack(const T&)\<close> and \<^verbatim>\<open>PushBack(T&&)\<close> return nothing.\<close>

definition PushBack_copy :: "'a env \<Rightarrow> 'a cref \<Rightarrow> 'a Vector \<Rightarrow> error option \<times> 'a Vector" where
  "PushBack_copy E val v =
     (case EmplaceBack E (ConstRef val) v of
        (Inl e, v') \<Rightarrow> (Some e, v')
      | (Inr r, v') \<Rightarrow> (None, v'))"

definition PushBack_move :: "'a env \<Rightarrow> 'a \<Rightarrow> 'a Vector \<Rightarrow> error option \<times> 'a Vector" where
  "PushBack_move E val v =
     (case EmplaceBack E (Rvalue val) v of
        (Inl e, v') \<Rightarrow> (Some e, v')
      | (Inr r, v') \<Rightarrow> (None, v'))"

definition Insert_copy :: "'a env \<Rightarrow> nat \<Rightarrow> 'a cref \<Rightarrow> 'a Vector \<Rightarrow> (error + nat) \<times> 'a Vector" where
  "Insert_copy E pos val v = Emplace E pos (ConstRef val) v"

definition Insert_move :: "'a env \<Rightarrow> nat \<Rightarrow> 'a \<Rightarrow> 'a Vector \<Rightarrow> (error + nat) \<times> 'a Vector" where
  "Insert_move E pos val v = Emplace E pos (Rvalue val) v"

definition Erase :: "'a env \<Rightarrow> nat \<Rightarrow> 'a Vector \<Rightarrow> (error + nat) \<times> 'a Vector" where
  "Erase E pos v =
     (if \<not> pos < size_v v then (Inl AssertFailed, v)
      else
        (let index = pos in
         case std_move E (buffer_m (data_v v)) (index + 1) (size_v v) index of
           (Some e, b) \<Rightarrow> (Inl e, set_buffer v b)
         | (None, b) \<Rightarrow>
             (Inr index, (set_buffer v (b[size_v v - 1 := None]))\<lparr>size_v := size_v v - 1\<rparr>)))"

section \<open>Invariant and contents\<close>

text \<open>
  The class invariant: the length is at most the capacity, the block has
  \<open>capacity_m\<close> slots, and the slots below \<open>size_v\<close> hold live objects.
\<close>

definition Vector_inv :: "'a Vector \<Rightarrow> bool" where
  "Vector_inv v =
     (size_v v \<le> capacity_m (data_v v) \<and>
      length (buffer_m (data_v v)) = capacity_m (data_v v) \<and>
      list_all (\<lambda>s. s \<noteq> None) (take (size_v v) (buffer_m (data_v v))))"

text \<open>The elements of a vector, in index order.\<close>

definition elems :: "'a Vector \<Rightarrow> 'a list" where
  "elems v = map the (take (size_v v) (buffer_m (data_v v)))"

text \<open>
  An element type has value semantics when a copy or a move that returns gives
  the new (or the assigned) object the value of its source. It cannot throw when
  none of its operations fails and every allocation returns the room asked for.
\<close>

definition value_semantics :: "'a env \<Rightarrow> bool" where
  "value_semantics E =
     ((\<forall>x y. copy_ctor E x = Some y \<longrightarrow> y = x) \<and>
      (\<forall>x y x'. move_ctor E x = Some (y, x') \<longrightarrow> y = x) \<and>
      (\<forall>d s y. copy_assign E d s = Some y \<longrightarrow> y = s) \<and>
      (\<forall>d s y s'. move_assign E d s = Some (y, s') \<longrightarrow> y = s))"

definition nothrow :: "'a env \<Rightarrow> bool" where
  "nothrow E =
     (value_init E \<noteq> None \<and> (\<forall>x. copy_ctor E x \<noteq> None) \<and> (\<forall>x. move_ctor E x \<noteq> None) \<and>
      (\<forall>d s. copy_assign E d s \<noteq> None) \<and> (\<forall>d s. move_assign E d s \<noteq> None) \<and>
      (\<forall>n. operator_new E n = Room))"

text \<open>A vector with the given elements and the given number of spare slots.\<close>

definition mk_vector :: "'a list \<Rightarrow> nat \<Rightarrow> 'a Vector" where
  "mk_vector xs spare =
     \<lparr>data_v = \<lparr>buffer_m = map Some xs @ replicate spare None,
                capacity_m = length xs + spare\<rparr>,
      size_v = length xs\<rparr>"

text \<open>
  The product \<^verbatim>\<open>n * sizeof(T)\<close> that \<^verbatim>\<open>Allocate(n)\<close> computes does not wrap.
\<close>

definition no_wrap :: "'a env \<Rightarrow> nat \<Rightarrow> bool" where
  "no_wrap E n = (\<forall>k. operator_new E n \<noteq> Short k)"

text \<open>The capacity that the reallocating branch of \<^verbatim>\<open>Emplace\<close> asks for.\<close>

definition grown :: "'a Vector \<Rightarrow> nat" where
  "grown v = (if size_v v = 0 then 1 else size_v v * 2)"

text \<open>
  Arguments from which \<^verbatim>\<open>Emplace\<close> can build an element of a vector: the
  constructor does not throw on them for reasons of their own, and a reference
  to an own element refers to a live one.
\<close>

definition args_ok :: "'a ctor_args \<Rightarrow> 'a Vector \<Rightarrow> bool" where
  "args_ok args v =
     (case args of Args r \<Rightarrow> r \<noteq> None | ConstRef (Own j) \<Rightarrow> j < size_v v | _ \<Rightarrow> True)"

section \<open>Sequences of PushBack and PopBack\<close>

text \<open>
  A caller's sequence of \<^verbatim>\<open>PushBack\<close> and \<^verbatim>\<open>PopBack\<close> calls on one vector, run in
  order; the run ends at the first call that throws, as the exception would end
  the caller's sequence.
\<close>

datatype 'a op = PushCopyOp "'a cref" | PushMoveOp 'a | PopOp

fun apply_op :: "'a env \<Rightarrow> 'a op \<Rightarrow> 'a Vector \<Rightarrow> error option \<times> 'a Vector" where
  "apply_op E (PushCopyOp c) v = PushBack_copy E c v"
| "apply_op E (PushMoveOp x) v = PushBack_move E x v"
| "apply_op E PopOp v = (None, PopBack v)"

fun run :: "'a env \<Rightarrow> 'a op list \<Rightarrow> 'a Vector \<Rightarrow> error + 'a Vector" where
  "run E [] v = Inr v"
| "run E (x # ops) v =
     (case apply_op E x v of
        (Some e, v') \<Rightarrow> Inl e
      | (None, v') \<Rightarrow> run E ops v')"

fun is_push :: "'a op \<Rightarrow> bool" where
  "is_push (PushCopyOp c) = True"
| "is_push (PushMoveOp x) = True"
| "is_push PopOp = False"

text \<open>
  Two ways of counting. \<open>pushes_minus_pops\<close> is the number of pushes minus the
  number of pops, floored at \<open>0\<close> (subtraction on \<open>nat\<close> stops at \<open>0\<close>).
  \<open>running_count\<close> starts from \<open>n\<close>, adds one for a push and takes one away
  for a pop, never going below \<open>0\<close>.
\<close>

definition pushes_minus_pops :: "'a op list \<Rightarrow> nat" where
  "pushes_minus_pops ops = length (filter is_push ops) - length (filter (\<lambda>x. \<not> is_push x) ops)"

fun running_count :: "'a op list \<Rightarrow> nat \<Rightarrow> nat" where
  "running_count [] n = n"
| "running_count (x # ops) n = running_count ops (if is_push x then n + 1 else n - 1)"

text \<open>
  The shape of size and capacity that pushing onto an empty vector keeps: both
  zero, or the capacity a power of two that is at least the size and less than
  twice the size.
\<close>

definition doubling :: "'a Vector \<Rightarrow> bool" where
  "doubling v =
     ((size_v v = 0 \<and> capacity_m (data_v v) = 0) \<or>
      (\<exists>k. capacity_m (data_v v) = 2 ^ k \<and> size_v v \<le> 2 ^ k \<and> 2 ^ k < 2 * size_v v))"

section \<open>Element types for the examples\<close>

text \<open>
  Natural numbers that copy and move without throwing; a moved-from object
  holds \<open>0\<close>. Every allocation succeeds.
\<close>

definition plain_nat :: "nat env" where
  "plain_nat =
     \<lparr>value_init = Some 0, copy_ctor = Some, move_ctor = (\<lambda>x. Some (x, 0)),
      copy_assign = (\<lambda>d s. Some s), move_assign = (\<lambda>d s. Some (s, 0)),
      is_nothrow_move_constructible = True, is_copy_constructible = True,
      operator_new = (\<lambda>n. Room)\<rparr>"

text \<open>
  Natural numbers in a type that can be copied, whose copy constructor throws on
  the value \<open>2\<close> and whose move constructor is not \<^verbatim>\<open>noexcept\<close>: relocation copies.
\<close>

definition throwing_copy_nat :: "nat env" where
  "throwing_copy_nat =
     \<lparr>value_init = Some 0, copy_ctor = (\<lambda>x. if x = 2 then None else Some x),
      move_ctor = (\<lambda>x. if x = 2 then None else Some (x, 0)),
      copy_assign = (\<lambda>d s. Some s), move_assign = (\<lambda>d s. Some (s, 0)),
      is_nothrow_move_constructible = False, is_copy_constructible = True,
      operator_new = (\<lambda>n. Room)\<rparr>"

text \<open>
  Natural numbers in a type that cannot be copied and whose move constructor is
  not \<^verbatim>\<open>noexcept\<close>: it throws on the value \<open>2\<close> and leaves \<open>0\<close> in its source. Relocation
  moves, since there is no copy constructor to fall back on.
\<close>

definition move_only_nat :: "nat env" where
  "move_only_nat =
     \<lparr>value_init = Some 0, copy_ctor = (\<lambda>x. None),
      move_ctor = (\<lambda>x. if x = 2 then None else Some (x, 0)),
      copy_assign = (\<lambda>d s. None), move_assign = (\<lambda>d s. Some (s, 0)),
      is_nothrow_move_constructible = False, is_copy_constructible = False,
      operator_new = (\<lambda>n. Room)\<rparr>"

text \<open>
  The natural numbers of \<open>plain_nat\<close>, stored in \<open>8\<close> bytes each on a machine whose
  \<^verbatim>\<open>size_t\<close> has \<open>64\<close> bits and whose heap grants every request below \<open>2 ^ 47\<close>
  bytes.
\<close>

definition lp64_nat :: "nat env" where
  "lp64_nat = plain_nat\<lparr>operator_new := size_t_new 64 8 (\<lambda>b. b < 2 ^ 47)\<rparr>"

text \<open>
  A store with two vectors: object \<open>0\<close> holds \<open>[7, 8]\<close>, object \<open>1\<close> holds
  \<open>[1, 2, 3]\<close>; every other address holds an empty vector.
\<close>

definition two_vectors :: "nat objects" where
  "two_vectors = (\<lambda>a. Vector_default)(0 := mk_vector [7, 8] 0, 1 := mk_vector [1, 2, 3] 0)"

section \<open>Basic facts\<close>

lemma live_Some_iff: "live buf i = Some x \<longleftrightarrow> i < length buf \<and> buf ! i = Some x"
  by (simp add: live_def)

lemma live_None_iff: "live buf i = None \<longleftrightarrow> (i < length buf \<longrightarrow> buf ! i = None)"
  by (simp add: live_def)

lemma Vector_inv_iff:
  "Vector_inv v \<longleftrightarrow>
     size_v v \<le> capacity_m (data_v v) \<and> length (buffer_m (data_v v)) = capacity_m (data_v v) \<and>
     (\<forall>i<size_v v. buffer_m (data_v v) ! i \<noteq> None)"
  by (auto simp: Vector_inv_def list_all_length)

lemma inv_live: "Vector_inv v \<Longrightarrow> j < size_v v \<Longrightarrow> live (buffer_m (data_v v)) j \<noteq> None"
  by (auto simp: Vector_inv_iff live_def)

lemma set_buffer_simps [simp]:
  "buffer_m (data_v (set_buffer v b)) = b"
  "capacity_m (data_v (set_buffer v b)) = capacity_m (data_v v)"
  "size_v (set_buffer v b) = size_v v"
  by (simp_all add: set_buffer_def)

lemma elems_nth:
  "Vector_inv v \<Longrightarrow> i < size_v v \<Longrightarrow> buffer_m (data_v v) ! i = Some (elems v ! i)"
  by (auto simp: Vector_inv_iff elems_def)

lemma length_elems: "Vector_inv v \<Longrightarrow> length (elems v) = size_v v"
  by (simp add: Vector_inv_iff elems_def)

section \<open>Facts about the standard algorithms\<close>

subsection \<open>destroy_n\<close>

lemma length_destroy_n [simp]: "length (destroy_n buf f n) = length buf"
  by (induction n arbitrary: buf f) auto

lemma nth_destroy_n:
  "k < length buf \<Longrightarrow> destroy_n buf f n ! k = (if f \<le> k \<and> k < f + n then None else buf ! k)"
  by (induction n arbitrary: buf f) (auto simp: nth_list_update)

subsection \<open>uninitialized_value_construct_n\<close>

lemma length_uvc [simp]:
  "length (snd (uninitialized_value_construct_n E buf f n)) = length buf"
  by (induction n arbitrary: buf f) (auto simp: case_prod_unfold split: option.splits)

lemma uvc_outside:
  "k < f \<or> f + n \<le> k \<Longrightarrow> snd (uninitialized_value_construct_n E buf f n) ! k = buf ! k"
  by (induction n arbitrary: buf f) (auto simp: case_prod_unfold split: option.splits)

lemma uvc_success:
  "fst (uninitialized_value_construct_n E buf f n) = None \<Longrightarrow> f \<le> k \<Longrightarrow> k < f + n \<Longrightarrow>
   k < length buf \<Longrightarrow>
   value_init E \<noteq> None \<and> snd (uninitialized_value_construct_n E buf f n) ! k = value_init E"
proof (induction n arbitrary: buf f)
  case 0
  then show ?case by simp
next
  case (Suc n)
  then show ?case
    by (cases "k = f") (auto simp: case_prod_unfold uvc_outside split: option.splits)
qed

lemma uvc_range:
  "fst (uninitialized_value_construct_n E buf f n) = None \<Longrightarrow> 0 < n \<Longrightarrow> f + n \<le> length buf"
proof (induction n arbitrary: buf f)
  case 0
  then show ?case by simp
next
  case (Suc n)
  from Suc.prems obtain y where
    f: "f < length buf" and
    r: "fst (uninitialized_value_construct_n E (buf[f := Some y]) (Suc f) n) = None"
    by (auto simp: case_prod_unfold split: option.splits if_splits)
  show ?case
  proof (cases n)
    case 0
    with f show ?thesis by simp
  next
    case (Suc m)
    with Suc.IH [OF r] show ?thesis by simp
  qed
qed

lemma uvc_total:
  "value_init E \<noteq> None \<Longrightarrow> f + n \<le> length buf \<Longrightarrow>
   fst (uninitialized_value_construct_n E buf f n) = None"
  by (induction n arbitrary: buf f) (auto simp: case_prod_unfold split: option.splits)

subsection \<open>uninitialized_copy_n\<close>

lemma length_ucopy [simp]:
  "length (snd (uninitialized_copy_n E src f n dst d)) = length dst"
  by (induction n arbitrary: dst f d) (auto simp: case_prod_unfold split: option.splits)

lemma ucopy_outside:
  "k < d \<or> d + n \<le> k \<Longrightarrow> snd (uninitialized_copy_n E src f n dst d) ! k = dst ! k"
  by (induction n arbitrary: dst f d) (auto simp: case_prod_unfold split: option.splits)

lemma ucopy_success:
  "fst (uninitialized_copy_n E src f n dst d) = None \<Longrightarrow> k < n \<Longrightarrow>
   \<exists>x y. live src (f + k) = Some x \<and> copy_ctor E x = Some y \<and>
     (d + k < length dst \<longrightarrow> snd (uninitialized_copy_n E src f n dst d) ! (d + k) = Some y)"
proof (induction n arbitrary: dst f d k)
  case 0
  then show ?case by simp
next
  case (Suc n)
  show ?case
  proof (cases k)
    case 0
    with Suc.prems show ?thesis
      by (auto simp: case_prod_unfold ucopy_outside split: option.splits if_splits)
  next
    case (Suc j)
    with Suc.prems obtain x y where
      x: "live src f = Some x" and y: "copy_ctor E x = Some y" and
      r: "fst (uninitialized_copy_n E src (Suc f) n (dst[d := Some y]) (Suc d)) = None" and
      d: "d < length dst"
      by (auto simp: case_prod_unfold split: option.splits if_splits)
    from Suc.IH [OF r, of j] Suc Suc.prems x y r d show ?thesis
      by (auto simp: case_prod_unfold split: option.splits)
  qed
qed

lemma ucopy_range:
  "fst (uninitialized_copy_n E src f n dst d) = None \<Longrightarrow> 0 < n \<Longrightarrow> d + n \<le> length dst"
proof (induction n arbitrary: dst f d)
  case 0
  then show ?case by simp
next
  case (Suc n)
  from Suc.prems obtain x y where
    d: "d < length dst" and
    r: "fst (uninitialized_copy_n E src (Suc f) n (dst[d := Some y]) (Suc d)) = None"
    by (auto simp: case_prod_unfold split: option.splits if_splits)
  show ?case
  proof (cases n)
    case 0
    with d show ?thesis by simp
  next
    case (Suc m)
    with Suc.IH [OF r] show ?thesis by simp
  qed
qed

lemma ucopy_failure:
  "fst (uninitialized_copy_n E src f n dst d) \<noteq> None \<Longrightarrow>
   (\<forall>k. d \<le> k \<and> k < d + n \<and> k < length dst \<longrightarrow> dst ! k = None) \<Longrightarrow>
   snd (uninitialized_copy_n E src f n dst d) = dst"
proof (induction n arbitrary: dst f d)
  case 0
  then show ?case by simp
next
  case (Suc n)
  show ?case
  proof (cases "live src f")
    case None
    then show ?thesis by simp
  next
    case (Some x)
    show ?thesis
    proof (cases "copy_ctor E x")
      case None
      with Some show ?thesis by simp
    next
      case (Some y)
      let ?r = "uninitialized_copy_n E src (Suc f) n (dst[d := Some y]) (Suc d)"
      from Suc.prems \<open>live src f = Some x\<close> Some have f: "\<not> d < length dst \<or> fst ?r \<noteq> None"
        by (auto simp: case_prod_unfold split: option.splits if_splits)
      show ?thesis
      proof (cases "d < length dst")
        case False
        then show ?thesis by simp
      next
        case True
        with f have f: "fst ?r \<noteq> None" by simp
      have "\<forall>k. Suc d \<le> k \<and> k < Suc d + n \<and> k < length (dst[d := Some y]) \<longrightarrow> dst[d := Some y] ! k = None"
        using Suc.prems(2) by auto
      from Suc.IH [OF f this] have s: "snd ?r = dst[d := Some y]" .
      have "dst[d := None] = dst"
        using Suc.prems(2) by (cases "d < length dst") (auto simp: list_update_same_conv list_update_beyond)
      with s f \<open>live src f = Some x\<close> Some show ?thesis
        by (auto simp: case_prod_unfold split: option.splits)
      qed
    qed
  qed
qed

lemma ucopy_total:
  "(\<forall>x. copy_ctor E x \<noteq> None) \<Longrightarrow> (\<forall>k<n. live src (f + k) \<noteq> None) \<Longrightarrow>
   d + n \<le> length dst \<Longrightarrow>
   fst (uninitialized_copy_n E src f n dst d) = None"
proof (induction n arbitrary: dst f d)
  case 0
  then show ?case by simp
next
  case (Suc n)
  from Suc.prems(2) have "live src f \<noteq> None" by (metis add.right_neutral zero_less_Suc)
  then obtain x where x: "live src f = Some x" by auto
  from Suc.prems(1) obtain y where y: "copy_ctor E x = Some y" by auto
  have "\<forall>k<n. live src (Suc f + k) \<noteq> None"
    using Suc.prems(2) by (metis Suc_less_eq add_Suc_shift)
  moreover from Suc.prems(3) have "Suc d + n \<le> length (dst[d := Some y])" by simp
  ultimately have "fst (uninitialized_copy_n E src (Suc f) n (dst[d := Some y]) (Suc d)) = None"
    by (rule Suc.IH [OF Suc.prems(1)])
  with x y Suc.prems(3) show ?case
    by (auto simp: case_prod_unfold split: option.splits)
qed

subsection \<open>uninitialized_move_n\<close>

lemma length_umove_dst [simp]:
  "length (snd (snd (uninitialized_move_n E src f n dst d))) = length dst"
  by (induction n arbitrary: src dst f d) (auto simp: case_prod_unfold split: option.splits)

lemma length_umove_src [simp]:
  "length (fst (snd (uninitialized_move_n E src f n dst d))) = length src"
  by (induction n arbitrary: src dst f d) (auto simp: case_prod_unfold split: option.splits)

lemma umove_dst_outside:
  "k < d \<or> d + n \<le> k \<Longrightarrow> snd (snd (uninitialized_move_n E src f n dst d)) ! k = dst ! k"
  by (induction n arbitrary: src dst f d) (auto simp: case_prod_unfold split: option.splits)

lemma umove_src_outside:
  "k < f \<or> f + n \<le> k \<Longrightarrow> fst (snd (uninitialized_move_n E src f n dst d)) ! k = src ! k"
  by (induction n arbitrary: src dst f d) (auto simp: case_prod_unfold split: option.splits)

lemma umove_src_live:
  "k < length src \<Longrightarrow> src ! k \<noteq> None \<Longrightarrow>
   fst (snd (uninitialized_move_n E src f n dst d)) ! k \<noteq> None"
proof (induction n arbitrary: src dst f d)
  case 0
  then show ?case by simp
next
  case (Suc n)
  show ?case
  proof (cases "live src f")
    case None
    with Suc.prems show ?thesis by simp
  next
    case (Some x)
    show ?thesis
    proof (cases "move_ctor E x")
      case None
      with Some Suc.prems show ?thesis by simp
    next
      case (Some p)
      obtain y x' where p: "p = (y, x')" by (cases p)
      have "k < length (src[f := Some x'])" "src[f := Some x'] ! k \<noteq> None"
        using Suc.prems by (cases "k = f"; simp)+
      from Suc.IH [OF this, of "Suc f" "dst[d := Some y]" "Suc d"] \<open>live src f = Some x\<close> Some p
        Suc.prems
      show ?thesis
        by (cases "d < length dst") (auto simp: case_prod_unfold split: option.splits)
    qed
  qed
qed

lemma umove_success:
  "fst (uninitialized_move_n E src f n dst d) = None \<Longrightarrow> k < n \<Longrightarrow>
   \<exists>x y x'. live src (f + k) = Some x \<and> move_ctor E x = Some (y, x') \<and>
     (d + k < length dst \<longrightarrow> snd (snd (uninitialized_move_n E src f n dst d)) ! (d + k) = Some y)"
proof (induction n arbitrary: src dst f d k)
  case 0
  then show ?case by simp
next
  case (Suc n)
  from Suc.prems obtain x y x' where
    x: "live src f = Some x" and y: "move_ctor E x = Some (y, x')" and
    r: "fst (uninitialized_move_n E (src[f := Some x']) (Suc f) n (dst[d := Some y]) (Suc d)) = None" and
    d: "d < length dst"
    by (auto simp: case_prod_unfold split: option.splits if_splits)
  show ?case
  proof (cases k)
    case 0
    with x y r d show ?thesis
      by (auto simp: case_prod_unfold umove_dst_outside split: option.splits)
  next
    case (Suc j)
    with Suc.prems have j: "j < n" by simp
    have "live (src[f := Some x']) (Suc f + j) = live src (Suc f + j)"
      by (simp add: live_def)
    with Suc.IH [OF r j] Suc x y r d show ?thesis
      by (auto simp: case_prod_unfold split: option.splits)
  qed
qed

lemma umove_range:
  "fst (uninitialized_move_n E src f n dst d) = None \<Longrightarrow> 0 < n \<Longrightarrow> d + n \<le> length dst"
proof (induction n arbitrary: src dst f d)
  case 0
  then show ?case by simp
next
  case (Suc n)
  from Suc.prems obtain x y x' where
    d: "d < length dst" and
    r: "fst (uninitialized_move_n E (src[f := Some x']) (Suc f) n (dst[d := Some y]) (Suc d)) = None"
    by (auto simp: case_prod_unfold split: option.splits if_splits)
  show ?case
  proof (cases n)
    case 0
    with d show ?thesis by simp
  next
    case (Suc m)
    with Suc.IH [OF r] show ?thesis by simp
  qed
qed

lemma umove_failure:
  "fst (uninitialized_move_n E src f n dst d) \<noteq> None \<Longrightarrow>
   (\<forall>k. d \<le> k \<and> k < d + n \<and> k < length dst \<longrightarrow> dst ! k = None) \<Longrightarrow>
   snd (snd (uninitialized_move_n E src f n dst d)) = dst"
proof (induction n arbitrary: src dst f d)
  case 0
  then show ?case by simp
next
  case (Suc n)
  show ?case
  proof (cases "live src f")
    case None
    then show ?thesis by simp
  next
    case (Some x)
    show ?thesis
    proof (cases "move_ctor E x")
      case None
      with Some show ?thesis by simp
    next
      case (Some p)
      obtain y x' where p: "p = (y, x')" by (cases p)
      let ?r = "uninitialized_move_n E (src[f := Some x']) (Suc f) n (dst[d := Some y]) (Suc d)"
      from Suc.prems \<open>live src f = Some x\<close> Some p have f: "\<not> d < length dst \<or> fst ?r \<noteq> None"
        by (auto simp: case_prod_unfold split: option.splits if_splits)
      show ?thesis
      proof (cases "d < length dst")
        case False
        then show ?thesis by simp
      next
        case True
        with f have f: "fst ?r \<noteq> None" by simp
      have "\<forall>k. Suc d \<le> k \<and> k < Suc d + n \<and> k < length (dst[d := Some y]) \<longrightarrow> dst[d := Some y] ! k = None"
        using Suc.prems(2) by auto
      from Suc.IH [OF f this] have s: "snd (snd ?r) = dst[d := Some y]" .
      have "dst[d := None] = dst"
        using Suc.prems(2)
        by (cases "d < length dst") (auto simp: list_update_same_conv list_update_beyond)
      with s f \<open>live src f = Some x\<close> Some p show ?thesis
        by (auto simp: case_prod_unfold split: option.splits)
      qed
    qed
  qed
qed

lemma umove_total:
  "(\<forall>x. move_ctor E x \<noteq> None) \<Longrightarrow> (\<forall>k<n. live src (f + k) \<noteq> None) \<Longrightarrow>
   d + n \<le> length dst \<Longrightarrow>
   fst (uninitialized_move_n E src f n dst d) = None"
proof (induction n arbitrary: src dst f d)
  case 0
  then show ?case by simp
next
  case (Suc n)
  from Suc.prems(2) have "live src f \<noteq> None" by (metis add.right_neutral zero_less_Suc)
  then obtain x where x: "live src f = Some x" by auto
  from Suc.prems(1) obtain y x' where y: "move_ctor E x = Some (y, x')" by (metis option.exhaust surj_pair)
  have "\<forall>k<n. live (src[f := Some x']) (Suc f + k) \<noteq> None"
  proof (intro allI impI)
    fix k assume "k < n"
    with Suc.prems(2) have "live src (f + Suc k) \<noteq> None" by (metis Suc_less_eq)
    then show "live (src[f := Some x']) (Suc f + k) \<noteq> None"
      by (simp add: live_def split: if_splits)
  qed
  moreover from Suc.prems(3) have "Suc d + n \<le> length (dst[d := Some y])" by simp
  ultimately
  have "fst (uninitialized_move_n E (src[f := Some x']) (Suc f) n (dst[d := Some y]) (Suc d)) = None"
    by (rule Suc.IH [OF Suc.prems(1)])
  with x y Suc.prems(3) show ?case
    by (auto simp: case_prod_unfold split: option.splits)
qed

subsection \<open>std::copy\<close>

lemma std_copy_stop: "\<not> f < l \<Longrightarrow> std_copy E src f l dst d = (None, dst)"
  by (subst std_copy.simps) simp

lemma std_copy_cases:
  assumes "f < l"
  obtains (step) x y y' where "live src f = Some x" "live dst d = Some y"
      "copy_assign E y x = Some y'"
      "std_copy E src f l dst d = std_copy E src (Suc f) l (dst[d := Some y']) (Suc d)"
    | (fail) e where "std_copy E src f l dst d = (Some e, dst)"
      "live src f = None \<or> live dst d = None \<or> (\<exists>x y. live src f = Some x \<and> live dst d = Some y \<and> copy_assign E y x = None)"
proof (cases "live src f")
  case None
  with assms have "std_copy E src f l dst d = (Some UndefinedBehaviour, dst)"
    by (subst std_copy.simps) simp
  with None show ?thesis by (rule_tac fail) auto
next
  case (Some x)
  note x = this
  show ?thesis
  proof (cases "live dst d")
    case None
    with assms x have "std_copy E src f l dst d = (Some UndefinedBehaviour, dst)"
      by (subst std_copy.simps) simp
    with None show ?thesis by (rule_tac fail) auto
  next
    case (Some y)
    note y = this
    show ?thesis
    proof (cases "copy_assign E y x")
      case None
      with assms x y have "std_copy E src f l dst d = (Some ElemThrow, dst)"
        by (subst std_copy.simps) simp
      with None x y show ?thesis by (rule_tac fail) auto
    next
      case (Some y')
      with assms x y
      have "std_copy E src f l dst d = std_copy E src (Suc f) l (dst[d := Some y']) (Suc d)"
        by (subst std_copy.simps) simp
      with x y Some show ?thesis by (rule step)
    qed
  qed
qed

lemma length_std_copy [simp]:
  "length (snd (std_copy E src f l dst d)) = length dst"
proof (induction "l - f" arbitrary: f dst d)
  case 0
  then show ?case by (simp add: std_copy_stop)
next
  case (Suc n)
  then have lt: "f < l" and n: "n = l - Suc f" by auto
  from lt show ?case
  proof (cases rule: std_copy_cases [where E = E and src = src and dst = dst and d = d])
    case (step x y y')
    with Suc.hyps(1) [OF n, of "dst[d := Some y']" "Suc d"] show ?thesis by simp
  next
    case (fail e)
    then show ?thesis by simp
  qed
qed

lemma std_copy_shape:
  "k < length dst \<Longrightarrow> (snd (std_copy E src f l dst d) ! k = None) = (dst ! k = None)"
proof (induction "l - f" arbitrary: f dst d)
  case 0
  then show ?case by (simp add: std_copy_stop)
next
  case (Suc n)
  then have lt: "f < l" and n: "n = l - Suc f" by auto
  from lt show ?case
  proof (cases rule: std_copy_cases [where E = E and src = src and dst = dst and d = d])
    case (step x y y')
    with Suc.hyps(1) [OF n, of "dst[d := Some y']" "Suc d"] Suc.prems show ?thesis
      by (cases "k = d") (auto simp: live_Some_iff)
  next
    case (fail e)
    then show ?thesis by simp
  qed
qed

lemma std_copy_outside:
  "k < d \<or> d + (l - f) \<le> k \<Longrightarrow> snd (std_copy E src f l dst d) ! k = dst ! k"
proof (induction "l - f" arbitrary: f dst d)
  case 0
  then show ?case by (simp add: std_copy_stop)
next
  case (Suc n)
  then have lt: "f < l" and n: "n = l - Suc f" by auto
  from lt show ?case
  proof (cases rule: std_copy_cases [where E = E and src = src and dst = dst and d = d])
    case (step x y y')
    from Suc.prems lt have "k < Suc d \<or> Suc d + (l - Suc f) \<le> k" and "k \<noteq> d" by auto
    with Suc.hyps(1) [OF n, of "Suc d" "dst[d := Some y']"] step show ?thesis by simp
  next
    case (fail e)
    then show ?thesis by simp
  qed
qed

lemma std_copy_success:
  "fst (std_copy E src f l dst d) = None \<Longrightarrow> value_semantics E \<Longrightarrow> f \<le> j \<Longrightarrow> j < l \<Longrightarrow>
   snd (std_copy E src f l dst d) ! (d + (j - f)) = src ! j \<and> src ! j \<noteq> None \<and> j < length src"
proof (induction "l - f" arbitrary: f dst d)
  case 0
  then show ?case by simp
next
  case (Suc n)
  then have lt: "f < l" and n: "n = l - Suc f" by auto
  from lt show ?case
  proof (cases rule: std_copy_cases [where E = E and src = src and dst = dst and d = d])
    case (step x y y')
    from step(3) Suc.prems(2) have y': "y' = x" by (auto simp: value_semantics_def)
    show ?thesis
    proof (cases "j = f")
      case True
      with step y' show ?thesis
        by (simp add: std_copy_outside live_Some_iff)
    next
      case False
      with Suc.prems have le: "Suc f \<le> j" by simp
      then have idx: "Suc d + (j - Suc f) = d + (j - f)" by arith
      from step(4) Suc.prems(1)
      have "fst (std_copy E src (Suc f) l (dst[d := Some y']) (Suc d)) = None" by simp
      from Suc.hyps(1) [OF n this Suc.prems(2) le Suc.prems(4)]
      show ?thesis unfolding step(4) idx .
    qed
  next
    case (fail e)
    with Suc.prems show ?thesis by simp
  qed
qed

lemma std_copy_total:
  "(\<forall>d s. copy_assign E d s \<noteq> None) \<Longrightarrow> (\<forall>j. f \<le> j \<and> j < l \<longrightarrow> live src j \<noteq> None) \<Longrightarrow>
   (\<forall>j. d \<le> j \<and> j < d + (l - f) \<longrightarrow> live dst j \<noteq> None) \<Longrightarrow>
   fst (std_copy E src f l dst d) = None"
proof (induction "l - f" arbitrary: f dst d)
  case 0
  then show ?case by (simp add: std_copy_stop)
next
  case (Suc n)
  then have lt: "f < l" and n: "n = l - Suc f" by auto
  from lt show ?case
  proof (cases rule: std_copy_cases [where E = E and src = src and dst = dst and d = d])
    case (step x y y')
    have s: "\<forall>j. Suc f \<le> j \<and> j < l \<longrightarrow> live src j \<noteq> None"
      using Suc.prems(2) by auto
    have d: "\<forall>j. Suc d \<le> j \<and> j < Suc d + (l - Suc f) \<longrightarrow> live (dst[d := Some y']) j \<noteq> None"
    proof (intro allI impI)
      fix j assume "Suc d \<le> j \<and> j < Suc d + (l - Suc f)"
      with lt Suc.prems(3) have "live dst j \<noteq> None" and "j \<noteq> d" by auto
      then show "live (dst[d := Some y']) j \<noteq> None"
        by (simp add: live_def split: if_splits)
    qed
    from Suc.hyps(1) [OF n Suc.prems(1) s d] step show ?thesis by simp
  next
    case (fail e)
    from lt Suc.prems(2) have "live src f \<noteq> None" by auto
    moreover from lt Suc.prems(3) have "live dst d \<noteq> None" by auto
    ultimately show ?thesis using fail(2) Suc.prems(1) by auto
  qed
qed

subsection \<open>Move assignment inside one block\<close>

lemma move_assign_at_Inr:
  "move_assign_at E buf d s = Inr buf' \<Longrightarrow>
   \<exists>x y y' x'. live buf s = Some x \<and> live buf d = Some y \<and> move_assign E y x = Some (y', x') \<and>
     buf' = buf[s := Some x', d := Some y']"
  by (auto simp: move_assign_at_def split: option.splits)

lemma move_assign_at_Inl:
  "move_assign_at E buf d s = Inl e \<Longrightarrow>
   live buf s = None \<or> live buf d = None \<or>
   (\<exists>x y. live buf s = Some x \<and> live buf d = Some y \<and> move_assign E y x = None)"
  by (auto simp: move_assign_at_def split: option.splits)

lemma move_assign_at_length: "move_assign_at E buf d s = Inr buf' \<Longrightarrow> length buf' = length buf"
  by (auto dest: move_assign_at_Inr)

lemma move_assign_at_shape:
  "move_assign_at E buf d s = Inr buf' \<Longrightarrow> k < length buf \<Longrightarrow> (buf' ! k = None) = (buf ! k = None)"
  by (auto dest!: move_assign_at_Inr simp: live_Some_iff nth_list_update split: if_splits)

lemma move_assign_at_value:
  "move_assign_at E buf d s = Inr buf' \<Longrightarrow> value_semantics E \<Longrightarrow> d \<noteq> s \<Longrightarrow>
   buf' ! d = buf ! s \<and> (\<forall>k. k \<noteq> d \<and> k \<noteq> s \<longrightarrow> buf' ! k = buf ! k)"
proof -
  assume a: "move_assign_at E buf d s = Inr buf'" and v: "value_semantics E" and ne: "d \<noteq> s"
  from move_assign_at_Inr [OF a] obtain x y y' x' where
    x: "live buf s = Some x" and y: "live buf d = Some y" and
    m: "move_assign E y x = Some (y', x')" and b: "buf' = buf[s := Some x', d := Some y']"
    by blast
  from v m have "y' = x" unfolding value_semantics_def by blast
  with x y b ne show ?thesis
    by (auto simp: live_Some_iff)
qed

lemma move_assign_at_total:
  "(\<forall>d s. move_assign E d s \<noteq> None) \<Longrightarrow> live buf s \<noteq> None \<Longrightarrow> live buf d \<noteq> None \<Longrightarrow>
   \<exists>buf'. move_assign_at E buf d s = Inr buf'"
proof -
  assume t: "\<forall>d s. move_assign E d s \<noteq> None" and "live buf s \<noteq> None" "live buf d \<noteq> None"
  then obtain x y where x: "live buf s = Some x" and y: "live buf d = Some y" by auto
  from t have "move_assign E y x \<noteq> None" by blast
  then obtain p where "move_assign E y x = Some p" by blast
  with x y show ?thesis
    by (cases p) (simp add: move_assign_at_def)
qed

subsection \<open>std::move\<close>

lemma std_move_stop: "\<not> f < l \<Longrightarrow> std_move E buf f l d = (None, buf)"
  by (subst std_move.simps) simp

lemma std_move_cases:
  assumes "f < l"
  obtains (step) buf1 where "move_assign_at E buf d f = Inr buf1"
      "std_move E buf f l d = std_move E buf1 (Suc f) l (Suc d)"
    | (fail) e where "move_assign_at E buf d f = Inl e" "std_move E buf f l d = (Some e, buf)"
proof (cases "move_assign_at E buf d f")
  case (Inl e)
  with assms have "std_move E buf f l d = (Some e, buf)"
    by (subst std_move.simps) simp
  with Inl show ?thesis by (rule fail)
next
  case (Inr buf1)
  with assms have "std_move E buf f l d = std_move E buf1 (Suc f) l (Suc d)"
    by (subst std_move.simps) simp
  with Inr show ?thesis by (rule step)
qed

lemma length_std_move [simp]: "length (snd (std_move E buf f l d)) = length buf"
proof (induction "l - f" arbitrary: f buf d)
  case 0
  then show ?case by (simp add: std_move_stop)
next
  case (Suc n)
  then have lt: "f < l" and n: "n = l - Suc f" by auto
  from lt show ?case
  proof (cases rule: std_move_cases [where E = E and buf = buf and d = d])
    case (step buf1)
    with Suc.hyps(1) [OF n, of buf1 "Suc d"] show ?thesis
      by (simp add: move_assign_at_length)
  next
    case (fail e)
    then show ?thesis by simp
  qed
qed

lemma std_move_shape:
  "k < length buf \<Longrightarrow> (snd (std_move E buf f l d) ! k = None) = (buf ! k = None)"
proof (induction "l - f" arbitrary: f buf d)
  case 0
  then show ?case by (simp add: std_move_stop)
next
  case (Suc n)
  then have lt: "f < l" and n: "n = l - Suc f" by auto
  from lt show ?case
  proof (cases rule: std_move_cases [where E = E and buf = buf and d = d])
    case (step buf1)
    from step(1) have "length buf1 = length buf" by (rule move_assign_at_length)
    with Suc.hyps(1) [OF n, of buf1 "Suc d"] Suc.prems step show ?thesis
      by (simp add: move_assign_at_shape)
  next
    case (fail e)
    then show ?thesis by simp
  qed
qed



subsection \<open>std::move_backward\<close>

lemma std_move_backward_stop: "\<not> f < l \<Longrightarrow> std_move_backward E buf f l d = (None, buf)"
  by (subst std_move_backward.simps) simp

lemma std_move_backward_cases:
  assumes "f < l"
  obtains (step) buf1 where "move_assign_at E buf (d - 1) (l - 1) = Inr buf1"
      "std_move_backward E buf f l d = std_move_backward E buf1 f (l - 1) (d - 1)"
    | (fail) e where "move_assign_at E buf (d - 1) (l - 1) = Inl e"
      "std_move_backward E buf f l d = (Some e, buf)"
proof (cases "move_assign_at E buf (d - 1) (l - 1)")
  case (Inl e)
  with assms have "std_move_backward E buf f l d = (Some e, buf)"
    by (subst std_move_backward.simps) simp
  with Inl show ?thesis by (rule fail)
next
  case (Inr buf1)
  with assms have "std_move_backward E buf f l d = std_move_backward E buf1 f (l - 1) (d - 1)"
    by (subst std_move_backward.simps) simp
  with Inr show ?thesis by (rule step)
qed

lemma length_std_move_backward [simp]:
  "length (snd (std_move_backward E buf f l d)) = length buf"
proof (induction "l - f" arbitrary: l buf d)
  case 0
  then show ?case by (simp add: std_move_backward_stop)
next
  case (Suc n)
  then have lt: "f < l" and n: "n = (l - 1) - f" by auto
  from lt show ?case
  proof (cases rule: std_move_backward_cases [where E = E and buf = buf and d = d])
    case (step buf1)
    with Suc.hyps(1) [OF n, of buf1 "d - 1"] show ?thesis
      by (simp add: move_assign_at_length)
  next
    case (fail e)
    then show ?thesis by simp
  qed
qed

lemma std_move_backward_shape:
  "k < length buf \<Longrightarrow> (snd (std_move_backward E buf f l d) ! k = None) = (buf ! k = None)"
proof (induction "l - f" arbitrary: l buf d)
  case 0
  then show ?case by (simp add: std_move_backward_stop)
next
  case (Suc n)
  then have lt: "f < l" and n: "n = (l - 1) - f" by auto
  from lt show ?case
  proof (cases rule: std_move_backward_cases [where E = E and buf = buf and d = d])
    case (step buf1)
    from step(1) have "length buf1 = length buf" by (rule move_assign_at_length)
    with Suc.hyps(1) [OF n, of buf1 "d - 1"] Suc.prems step show ?thesis
      by (simp add: move_assign_at_shape)
  next
    case (fail e)
    then show ?thesis by simp
  qed
qed

lemma std_move_backward_shift:
  "fst (std_move_backward E buf f l (Suc l)) = None \<Longrightarrow> value_semantics E \<Longrightarrow>
   (\<forall>k. f < k \<and> k \<le> l \<longrightarrow> snd (std_move_backward E buf f l (Suc l)) ! k = buf ! (k - 1)) \<and>
   (\<forall>k. k < f \<or> l < k \<longrightarrow> snd (std_move_backward E buf f l (Suc l)) ! k = buf ! k)"
proof (induction "l - f" arbitrary: l buf)
  case 0
  then show ?case by (auto simp: std_move_backward_stop)
next
  case (Suc n)
  then have lt: "f < l" and n: "n = (l - 1) - f" by auto
  then obtain m where m: "l = Suc m" by (cases l) auto
  from lt show ?case
  proof (cases rule: std_move_backward_cases [where E = E and buf = buf and d = "Suc l"])
    case (step buf1)
    from step(1) m have s1: "move_assign_at E buf (Suc m) m = Inr buf1" by simp
    from move_assign_at_value [OF s1 Suc.prems(2)]
    have v: "buf1 ! Suc m = buf ! m" "\<And>k. k \<noteq> Suc m \<Longrightarrow> k \<noteq> m \<Longrightarrow> buf1 ! k = buf ! k"
      by auto
    from step(2) m have eq: "std_move_backward E buf f l (Suc l) = std_move_backward E buf1 f m (Suc m)"
      by simp
    with Suc.prems(1) have "fst (std_move_backward E buf1 f m (Suc m)) = None" by simp
    from Suc.hyps(1) [of m, OF _ this Suc.prems(2)] n m
    have A: "\<And>k. f < k \<Longrightarrow> k \<le> m \<Longrightarrow>
        snd (std_move_backward E buf1 f m (Suc m)) ! k = buf1 ! (k - 1)"
      and B: "\<And>k. k < f \<or> m < k \<Longrightarrow>
        snd (std_move_backward E buf1 f m (Suc m)) ! k = buf1 ! k"
      by auto
    show ?thesis
    proof (intro conjI allI impI)
      fix k assume k: "f < k \<and> k \<le> l"
      show "snd (std_move_backward E buf f l (Suc l)) ! k = buf ! (k - 1)"
      proof (cases "k = l")
        case True
        with B [of "Suc m"] v(1) m eq show ?thesis by simp
      next
        case False
        with k m have km: "k \<le> m" by simp
        with k have "k - 1 \<noteq> Suc m" "k - 1 \<noteq> m" by auto
        with A [of k] k km v(2) [of "k - 1"] eq show ?thesis by simp
      qed
    next
      fix k assume k: "k < f \<or> l < k"
      with lt m have "k \<noteq> Suc m" "k \<noteq> m" "k < f \<or> m < k" by auto
      with B [of k] v(2) [of k] eq
      show "snd (std_move_backward E buf f l (Suc l)) ! k = buf ! k"
        by simp
    qed
  next
    case (fail e)
    with Suc.prems show ?thesis by simp
  qed
qed

lemma std_move_backward_total:
  "(\<forall>d s. move_assign E d s \<noteq> None) \<Longrightarrow> (\<forall>j. f \<le> j \<and> j \<le> l \<longrightarrow> live buf j \<noteq> None) \<Longrightarrow>
   fst (std_move_backward E buf f l (Suc l)) = None"
proof (induction "l - f" arbitrary: l buf)
  case 0
  then show ?case by (simp add: std_move_backward_stop)
next
  case (Suc n)
  then have lt: "f < l" and n: "n = (l - 1) - f" by auto
  then obtain m where m: "l = Suc m" by (cases l) auto
  from lt m Suc.prems(2) have "live buf m \<noteq> None" "live buf (Suc m) \<noteq> None" by auto
  from move_assign_at_total [OF Suc.prems(1) this]
  obtain buf1 where b: "move_assign_at E buf (Suc m) m = Inr buf1" by blast
  from lt show ?case
  proof (cases rule: std_move_backward_cases [where E = E and buf = buf and d = "Suc l"])
    case (step buf1)
    from step(1) m have s1: "move_assign_at E buf (Suc m) m = Inr buf1" by simp
    have "\<forall>j. f \<le> j \<and> j \<le> m \<longrightarrow> live buf1 j \<noteq> None"
    proof (intro allI impI)
      fix j assume j: "f \<le> j \<and> j \<le> m"
      with Suc.prems(2) m have "live buf j \<noteq> None" by simp
      then have "j < length buf" "buf ! j \<noteq> None" by (auto simp: live_def split: if_splits)
      with move_assign_at_shape [OF s1, of j] move_assign_at_length [OF s1]
      show "live buf1 j \<noteq> None" by (simp add: live_def)
    qed
    from Suc.hyps(1) [of m, OF _ Suc.prems(1) this] n m step(2) show ?thesis by simp
  next
    case (fail e)
    with b m show ?thesis by simp
  qed
qed

section \<open>Relocation\<close>

lemma length_CopyOrMove_dst [simp]:
  "length (snd (snd (CopyOrMoveNElem E src f n dst d))) = length dst"
  by (simp add: CopyOrMoveNElem_def case_prod_unfold)

lemma length_CopyOrMove_src [simp]:
  "length (fst (snd (CopyOrMoveNElem E src f n dst d))) = length src"
  by (simp add: CopyOrMoveNElem_def case_prod_unfold)

lemma CopyOrMove_dst_outside:
  "k < d \<or> d + n \<le> k \<Longrightarrow> snd (snd (CopyOrMoveNElem E src f n dst d)) ! k = dst ! k"
  by (simp add: CopyOrMoveNElem_def case_prod_unfold umove_dst_outside ucopy_outside)

lemma CopyOrMove_src_outside:
  "k < f \<or> f + n \<le> k \<Longrightarrow> fst (snd (CopyOrMoveNElem E src f n dst d)) ! k = src ! k"
  by (simp add: CopyOrMoveNElem_def case_prod_unfold umove_src_outside)

lemma CopyOrMove_src_live:
  "k < length src \<Longrightarrow> src ! k \<noteq> None \<Longrightarrow> fst (snd (CopyOrMoveNElem E src f n dst d)) ! k \<noteq> None"
  using umove_src_live [of k src E f n dst d]
  by (auto simp: CopyOrMoveNElem_def case_prod_unfold)

lemma CopyOrMove_src_copy:
  "\<not> use_move E \<Longrightarrow> fst (snd (CopyOrMoveNElem E src f n dst d)) = src"
  by (simp add: CopyOrMoveNElem_def case_prod_unfold)

lemma CopyOrMove_failure_dst:
  "fst (CopyOrMoveNElem E src f n dst d) \<noteq> None \<Longrightarrow>
   (\<forall>k. d \<le> k \<and> k < d + n \<and> k < length dst \<longrightarrow> dst ! k = None) \<Longrightarrow>
   snd (snd (CopyOrMoveNElem E src f n dst d)) = dst"
  by (cases "use_move E") (simp_all add: CopyOrMoveNElem_def case_prod_unfold umove_failure ucopy_failure)

lemma CopyOrMove_success:
  assumes ok: "fst (CopyOrMoveNElem E src f n dst d) = None" and vs: "value_semantics E"
    and k: "k < n" and d: "d + k < length dst"
  shows "snd (snd (CopyOrMoveNElem E src f n dst d)) ! (d + k) = src ! (f + k) \<and>
         src ! (f + k) \<noteq> None \<and> f + k < length src"
proof (cases "use_move E")
  case True
  with ok have "fst (uninitialized_move_n E src f n dst d) = None"
    by (simp add: CopyOrMoveNElem_def)
  from umove_success [OF this k] obtain x y x' where
    "live src (f + k) = Some x" "move_ctor E x = Some (y, x')"
    "snd (snd (uninitialized_move_n E src f n dst d)) ! (d + k) = Some y"
    using d by blast
  moreover from this(2) vs have "y = x" unfolding value_semantics_def by blast
  ultimately show ?thesis using True
    by (simp add: CopyOrMoveNElem_def live_Some_iff)
next
  case False
  with ok have "fst (uninitialized_copy_n E src f n dst d) = None"
    by (simp add: CopyOrMoveNElem_def case_prod_unfold)
  from ucopy_success [OF this k] obtain x y where
    "live src (f + k) = Some x" "copy_ctor E x = Some y"
    "snd (uninitialized_copy_n E src f n dst d) ! (d + k) = Some y"
    using d by blast
  moreover from this(2) vs have "y = x" unfolding value_semantics_def by blast
  ultimately show ?thesis using False
    by (simp add: CopyOrMoveNElem_def case_prod_unfold live_Some_iff)
qed

lemma CopyOrMove_total:
  assumes "use_move E \<longrightarrow> (\<forall>x. move_ctor E x \<noteq> None)"
    and "\<not> use_move E \<longrightarrow> (\<forall>x. copy_ctor E x \<noteq> None)"
    and "\<forall>k<n. live src (f + k) \<noteq> None"
    and "d + n \<le> length dst"
  shows "fst (CopyOrMoveNElem E src f n dst d) = None"
  using assms
  by (cases "use_move E") (simp_all add: CopyOrMoveNElem_def case_prod_unfold umove_total ucopy_total)

lemma CopyOrMove_range:
  assumes "fst (CopyOrMoveNElem E src f n dst d) = None" and "0 < n"
  shows "d + n \<le> length dst"
proof (cases "use_move E")
  case True
  with assms(1) have "fst (uninitialized_move_n E src f n dst d) = None"
    by (simp add: CopyOrMoveNElem_def)
  from umove_range [OF this assms(2)] show ?thesis .
next
  case False
  with assms(1) have "fst (uninitialized_copy_n E src f n dst d) = None"
    by (simp add: CopyOrMoveNElem_def case_prod_unfold)
  from ucopy_range [OF this assms(2)] show ?thesis .
qed

text \<open>Relocating one element inside a block.\<close>

lemma CopyOrMove_same_one_fail:
  "fst (CopyOrMoveNElem_same E buf s (Suc 0) d) \<noteq> None \<Longrightarrow>
   snd (CopyOrMoveNElem_same E buf s (Suc 0) d) = buf"
  by (auto simp: CopyOrMoveNElem_same_def split: option.splits if_splits)

lemma length_CopyOrMove_same_one [simp]:
  "length (snd (CopyOrMoveNElem_same E buf s (Suc 0) d)) = length buf"
  by (auto simp: CopyOrMoveNElem_same_def split: option.splits)

lemma CopyOrMove_same_one_range:
  "fst (CopyOrMoveNElem_same E buf s (Suc 0) d) = None \<Longrightarrow> d < length buf"
  by (auto simp: CopyOrMoveNElem_same_def split: option.splits if_splits)

lemma CopyOrMove_same_one_live:
  "k < length buf \<Longrightarrow> buf ! k \<noteq> None \<Longrightarrow> snd (CopyOrMoveNElem_same E buf s (Suc 0) d) ! k \<noteq> None"
  by (cases "k = d"; cases "k = s")
     (auto simp: CopyOrMoveNElem_same_def live_Some_iff split: option.splits)

lemma CopyOrMove_same_one_success:
  assumes ok: "fst (CopyOrMoveNElem_same E buf s (Suc 0) d) = None" and vs: "value_semantics E"
    and ne: "s \<noteq> d" and d: "d < length buf"
  shows "snd (CopyOrMoveNElem_same E buf s (Suc 0) d) ! d = buf ! s \<and> buf ! s \<noteq> None \<and>
         s < length buf \<and> snd (CopyOrMoveNElem_same E buf s (Suc 0) d) ! s \<noteq> None \<and>
         (\<forall>k. k \<noteq> d \<and> k \<noteq> s \<longrightarrow> snd (CopyOrMoveNElem_same E buf s (Suc 0) d) ! k = buf ! k)"
proof (cases "use_move E")
  case True
  with ok obtain x y x' where x: "live buf s = Some x" and m: "move_ctor E x = Some (y, x')"
    by (auto simp: CopyOrMoveNElem_same_def split: option.splits if_splits)
  from m vs have "y = x" unfolding value_semantics_def by blast
  with True x m ne d show ?thesis
    by (auto simp: CopyOrMoveNElem_same_def live_def split: if_splits)
next
  case False
  with ok obtain x y where x: "live buf s = Some x" and m: "copy_ctor E x = Some y"
    by (auto simp: CopyOrMoveNElem_same_def split: option.splits if_splits)
  from m vs have "y = x" unfolding value_semantics_def by blast
  with False x m ne d show ?thesis
    by (auto simp: CopyOrMoveNElem_same_def live_def split: if_splits)
qed

lemma CopyOrMove_same_one_total:
  assumes "use_move E \<longrightarrow> (\<forall>x. move_ctor E x \<noteq> None)"
    and "\<not> use_move E \<longrightarrow> (\<forall>x. copy_ctor E x \<noteq> None)"
    and "live buf s \<noteq> None"
    and "d < length buf"
  shows "fst (CopyOrMoveNElem_same E buf s (Suc 0) d) = None"
proof -
  from assms(3) obtain x where x: "live buf s = Some x" by auto
  show ?thesis
  proof (cases "use_move E")
    case True
    with assms(1) have "move_ctor E x \<noteq> None" by blast
    then obtain p where "move_ctor E x = Some p" by blast
    with True x assms(4) show ?thesis by (cases p) (simp add: CopyOrMoveNElem_same_def)
  next
    case False
    with assms(2) have "copy_ctor E x \<noteq> None" by blast
    then obtain y where "copy_ctor E x = Some y" by blast
    with False x assms(4) show ?thesis by (simp add: CopyOrMoveNElem_same_def)
  qed
qed

section \<open>Emplace\<close>

lemma construct_Own:
  assumes "construct E (ConstRef (Own j)) buf = Inr x" and "value_semantics E"
  shows "j < length buf \<and> buf ! j = Some x"
proof -
  from assms(1) obtain y where y: "live buf j = Some y" and c: "copy_ctor E y = Some x"
    by (auto split: option.splits)
  from c assms(2) have "x = y" unfolding value_semantics_def by blast
  with y show ?thesis by (simp add: live_Some_iff)
qed

lemma construct_total:
  assumes "nothrow E"
    and "case args of Args r \<Rightarrow> r \<noteq> None | ConstRef (Own j) \<Rightarrow> live buf j \<noteq> None | _ \<Rightarrow> True"
  shows "\<exists>x. construct E args buf = Inr x"
proof (cases args)
  case (Args r)
  with assms(2) show ?thesis by auto
next
  case (ConstRef c)
  show ?thesis
  proof (cases c)
    case (Outside x)
    from assms(1) have "copy_ctor E x \<noteq> None" by (simp add: nothrow_def)
    with ConstRef Outside show ?thesis by auto
  next
    case (Own j)
    with ConstRef assms(2) obtain y where y: "live buf j = Some y" by auto
    from assms(1) have "copy_ctor E y \<noteq> None" by (simp add: nothrow_def)
    with ConstRef Own y show ?thesis by auto
  qed
next
  case (Rvalue x)
  from assms(1) have "move_ctor E x \<noteq> None" by (simp add: nothrow_def)
  with Rvalue show ?thesis by auto
qed

text \<open>The elements after an insertion, from a description of the slots.\<close>

lemma inserted_elems:
  assumes i: "i \<le> n" and n: "n \<le> length buf" and b: "n < length b'"
    and s: "\<forall>k\<le>n. b' ! k = (if k < i then buf ! k else if k = i then Some x else buf ! (k - 1))"
  shows "map the (take (Suc n) b') = take i (map the (take n buf)) @ [x] @ drop i (map the (take n buf))"
proof (rule nth_equalityI)
  show "length (map the (take (Suc n) b')) =
      length (take i (map the (take n buf)) @ [x] @ drop i (map the (take n buf)))"
    using i n b by simp
next
  fix k assume "k < length (map the (take (Suc n) b'))"
  with b have k: "k \<le> n" by simp
  with b have l: "map the (take (Suc n) b') ! k = the (b' ! k)" by simp
  from i n have li: "length (take i (map the (take n buf))) = i" by simp
  show "map the (take (Suc n) b') ! k =
      (take i (map the (take n buf)) @ [x] @ drop i (map the (take n buf))) ! k"
  proof (cases "k < i")
    case True
    with s k i n show ?thesis
      unfolding l by (simp add: nth_append)
  next
    case False
    show ?thesis
    proof (cases "k = i")
      case True
      with s k i n show ?thesis
        unfolding l by (simp add: nth_append)
    next
      case ne: False
      with False obtain m where m: "k = Suc m" and im: "i \<le> m" by (cases k) auto
      with s k i n ne False show ?thesis
        unfolding l by (simp add: nth_append li)
    qed
  qed
qed

lemma Emplace_shift_D:
  assumes "Emplace_shift E i args v = (None, v')"
  obtains val b1 b2 y y' val' where
    "operator_new E 1 \<noteq> NoMemory"
    "construct E args (buffer_m (data_v v)) = Inr val"
    "fst (CopyOrMoveNElem_same E (buffer_m (data_v v)) (size_v v - 1) (Suc 0) (size_v v)) = None"
    "b1 = snd (CopyOrMoveNElem_same E (buffer_m (data_v v)) (size_v v - 1) (Suc 0) (size_v v))"
    "fst (std_move_backward E b1 i (size_v v - 1) (size_v v)) = None"
    "b2 = snd (std_move_backward E b1 i (size_v v - 1) (size_v v))"
    "live b2 i = Some y" "move_assign E y val = Some (y', val')"
    "v' = set_buffer v (b2[i := Some y'])"
  using assms
  by (auto simp: Emplace_shift_def case_prod_unfold split: sum.splits option.splits if_splits)

lemma Emplace_shift_success:
  assumes inv: "Vector_inv v" and vs: "value_semantics E" and i: "i < size_v v"
    and cap: "size_v v + 1 \<le> capacity_m (data_v v)"
    and e: "Emplace_shift E i args v = (None, v')"
  shows "\<exists>x. construct E args (buffer_m (data_v v)) = Inr x \<and>
           size_v v' = size_v v \<and> capacity_m (data_v v') = capacity_m (data_v v) \<and>
           length (buffer_m (data_v v')) = length (buffer_m (data_v v)) \<and>
           (\<forall>k\<le>size_v v. buffer_m (data_v v') ! k =
              (if k < i then buffer_m (data_v v) ! k else if k = i then Some x
               else buffer_m (data_v v) ! (k - 1))) \<and>
           (\<forall>k>size_v v. buffer_m (data_v v') ! k = buffer_m (data_v v) ! k)"
proof -
  let ?buf = "buffer_m (data_v v)"
  let ?n = "size_v v"
  from i obtain m where m: "?n = Suc m" by (cases ?n) auto
  from e obtain val b1 b2 y y' val' where
    c: "construct E args ?buf = Inr val"
    and ok1: "fst (CopyOrMoveNElem_same E ?buf (?n - 1) (Suc 0) ?n) = None"
    and b1: "b1 = snd (CopyOrMoveNElem_same E ?buf (?n - 1) (Suc 0) ?n)"
    and ok2: "fst (std_move_backward E b1 i (?n - 1) ?n) = None"
    and b2: "b2 = snd (std_move_backward E b1 i (?n - 1) ?n)"
    and y: "live b2 i = Some y" and ma: "move_assign E y val = Some (y', val')"
    and v': "v' = set_buffer v (b2[i := Some y'])"
    by (rule Emplace_shift_D)
  from inv cap have len: "length ?buf = capacity_m (data_v v)" and nlt: "?n < length ?buf"
    by (auto simp: Vector_inv_iff)
  from ma vs have y': "y' = val" unfolding value_semantics_def by blast
  from m have ne: "?n - 1 \<noteq> ?n" by simp
  from CopyOrMove_same_one_success [OF ok1 vs ne nlt] b1 m
  have r1: "b1 ! Suc m = ?buf ! m" "\<And>k. k \<noteq> Suc m \<Longrightarrow> k \<noteq> m \<Longrightarrow> b1 ! k = ?buf ! k"
    by auto
  have lb1: "length b1 = length ?buf" by (simp add: b1)
  from ok2 m have ok2': "fst (std_move_backward E b1 i m (Suc m)) = None" by simp
  from std_move_backward_shift [OF ok2' vs] b2 m
  have A: "\<And>k. i < k \<Longrightarrow> k \<le> m \<Longrightarrow> b2 ! k = b1 ! (k - 1)"
    and B: "\<And>k. k < i \<or> m < k \<Longrightarrow> b2 ! k = b1 ! k"
    by auto
  have lb2: "length b2 = length ?buf" by (simp add: b2 lb1)
  from i nlt have ilt: "i < length b2" by (simp add: lb2)
  have slots: "b2[i := Some y'] ! k =
      (if k < i then ?buf ! k else if k = i then Some val else ?buf ! (k - 1))" if kn: "k \<le> ?n" for k
  proof -
    consider "k < i" | "k = i" | "i < k" "k \<le> m" | "k = Suc m" using kn m by linarith
    then show ?thesis
    proof cases
      case 1
      with i m B [of k] r1(2) [of k] show ?thesis by simp
    next
      case 2
      with ilt y' show ?thesis by simp
    next
      case 3
      with A [of k] r1(2) [of "k - 1"] show ?thesis by simp
    next
      case 4
      with i m B [of k] r1(1) show ?thesis by simp
    qed
  qed
  have above: "b2[i := Some y'] ! k = ?buf ! k" if "?n < k" for k
    using that i m B [of k] r1(2) [of k] by simp
  from c slots above show ?thesis
    by (auto simp: v' lb2)
qed

subsection \<open>The reallocating branch\<close>

text \<open>
  A block that \<^verbatim>\<open>RawMemory(size_t)\<close> obtained is raw, and it has either the
  \<open>c\<close> slots asked for or, after a wrapped product, fewer than half of them.
\<close>

lemma RawMemory_sized_D:
  "RawMemory_sized E c = Inr m \<Longrightarrow>
   capacity_m m = c \<and> (\<exists>k. buffer_m m = replicate k None \<and> (k = c \<or> 2 * k < c))"
  by (auto simp: RawMemory_sized_def Allocate_def split: if_splits alloc.splits)

lemma RawMemory_sized_total:
  "operator_new E c = Room \<Longrightarrow>
   RawMemory_sized E c = Inr \<lparr>buffer_m = replicate c None, capacity_m = c\<rparr>"
  by (simp add: RawMemory_sized_def Allocate_def)

lemma exact_block:
  assumes "RawMemory_sized E c = Inr m" and "c \<le> length (buffer_m m)"
  shows "m = \<lparr>buffer_m = replicate c None, capacity_m = c\<rparr>"
proof -
  from RawMemory_sized_D [OF assms(1)] obtain k where
    "capacity_m m = c" "buffer_m m = replicate k None" "k = c \<or> 2 * k < c" by blast
  with assms(2) show ?thesis by auto
qed

lemma size_t_new_Short:
  assumes "size_t_new bits s heap n = Short k" and "0 < s"
  shows "2 * k < n"
proof -
  let ?r = "(n * s) mod 2 ^ bits"
  from assms(1) have w: "\<not> n * s < 2 ^ bits" and k: "k = ?r div s"
    by (auto simp: size_t_new_def Let_def split: if_splits)
  have "?r < 2 ^ bits" by simp
  moreover have "?r + 2 ^ bits \<le> n * s"
  proof -
    from w have "0 < (n * s) div 2 ^ bits" by (simp add: div_greater_zero_iff)
    then have "2 ^ bits * 1 \<le> 2 ^ bits * ((n * s) div 2 ^ bits)" by (intro mult_le_mono2) simp
    moreover have "n * s = 2 ^ bits * ((n * s) div 2 ^ bits) + ?r" by simp
    ultimately show ?thesis by linarith
  qed
  ultimately have "2 * ?r < n * s" by linarith
  moreover have "k * s \<le> ?r" unfolding k by (simp add: div_times_less_eq_dividend)
  ultimately have "2 * (k * s) < n * s" by linarith
  then have "(2 * k) * s < n * s" by (simp only: mult.assoc)
  then show ?thesis by (simp only: mult_less_cancel2)
qed

text \<open>
  With the allocator of a machine, \<open>Allocate\<close> is the source's arithmetic: the
  block has room for as many elements as fit into the wrapped byte count.
\<close>

lemma Allocate_size_t_new:
  assumes "operator_new E = size_t_new bits s heap" and "0 < s"
  shows "Allocate E n =
           (if n \<noteq> 0 then
              (if heap ((n * s) mod 2 ^ bits)
               then Inr (replicate (((n * s) mod 2 ^ bits) div s) None)
               else Inl BadAlloc)
            else Inr [])"
proof (cases "size_t_new bits s heap n")
  case NoMemory
  with assms(1) show ?thesis
    by (auto simp: Allocate_def size_t_new_def Let_def split: if_splits)
next
  case Room
  then have "n * s < 2 ^ bits" "heap ((n * s) mod 2 ^ bits)"
    by (auto simp: size_t_new_def Let_def split: if_splits)
  with assms Room show ?thesis by (simp add: Allocate_def)
next
  case (Short k)
  from size_t_new_Short [OF Short assms(2)] have "k \<le> (n - 1) div 2" by linarith
  moreover from Short have "k = ((n * s) mod 2 ^ bits) div s" "heap ((n * s) mod 2 ^ bits)"
    by (auto simp: size_t_new_def Let_def split: if_splits)
  ultimately show ?thesis using assms(1) Short by (simp add: Allocate_def min_def)
qed

lemma set_buffer_same [simp]: "set_buffer v (buffer_m (data_v v)) = v"
  by (simp add: set_buffer_def)

lemma Emplace_realloc_None_D:
  assumes "Emplace_realloc E i args v = (None, v', m)"
  obtains new_data x old1 new1 old2 new2 where
    "RawMemory_sized E (grown v) = Inr new_data"
    "construct E args (buffer_m (data_v v)) = Inr x"
    "fst (CopyOrMoveNElem E (buffer_m (data_v v)) 0 i ((buffer_m new_data)[i := Some x]) 0) = None"
    "old1 = fst (snd (CopyOrMoveNElem E (buffer_m (data_v v)) 0 i ((buffer_m new_data)[i := Some x]) 0))"
    "new1 = snd (snd (CopyOrMoveNElem E (buffer_m (data_v v)) 0 i ((buffer_m new_data)[i := Some x]) 0))"
    "fst (CopyOrMoveNElem E old1 i (size_v v - i) new1 (i + 1)) = None"
    "old2 = fst (snd (CopyOrMoveNElem E old1 i (size_v v - i) new1 (i + 1)))"
    "new2 = snd (snd (CopyOrMoveNElem E old1 i (size_v v - i) new1 (i + 1)))"
    "v' = v\<lparr>data_v := \<lparr>buffer_m = new2, capacity_m = capacity_m new_data\<rparr>\<rparr>"
    "m = (Some \<lparr>buffer_m = destroy_n old2 0 (size_v v), capacity_m = capacity_m (data_v v)\<rparr>, [])"
    "i < length (buffer_m new_data)"
  using assms
  by (auto simp: Emplace_realloc_def grown_def RawMemory_Swap_def case_prod_unfold
           split: sum.splits option.splits if_splits)

text \<open>
  When the reallocating branch returns, every object it built lies inside the
  new block; a short block cannot hold them, so the block has the slots asked for.
\<close>

lemma grown_block:
  assumes al: "RawMemory_sized E (grown v) = Inr new_data"
    and fit: "size_v v < length (buffer_m new_data)"
  shows "buffer_m new_data = replicate (grown v) None \<and> capacity_m new_data = grown v"
proof -
  from RawMemory_sized_D [OF al] obtain k where
    c: "capacity_m new_data = grown v" and b: "buffer_m new_data = replicate k None"
    and k: "k = grown v \<or> 2 * k < grown v" by blast
  from fit b have "size_v v < k" by simp
  with k have "k = grown v" by (auto simp: grown_def split: if_splits)
  with b c show ?thesis by simp
qed

lemma Emplace_realloc_block:
  assumes i: "i \<le> size_v v"
    and al: "RawMemory_sized E (grown v) = Inr new_data"
    and ix: "i < length (buffer_m new_data)"
    and ok2: "fst (CopyOrMoveNElem E old1 i (size_v v - i) new1 (i + 1)) = None"
    and l1: "length new1 = length (buffer_m new_data)"
  shows "buffer_m new_data = replicate (grown v) None \<and> capacity_m new_data = grown v"
proof -
  have "size_v v < length (buffer_m new_data)"
  proof (cases "i = size_v v")
    case True
    with ix show ?thesis by simp
  next
    case False
    with i have "0 < size_v v - i" by simp
    from CopyOrMove_range [OF ok2 this] i l1 show ?thesis by simp
  qed
  with al show ?thesis by (rule grown_block)
qed

lemma Emplace_realloc_success:
  assumes inv: "Vector_inv v" and vs: "value_semantics E" and i: "i \<le> size_v v"
    and e: "Emplace_realloc E i args v = (None, v', m)"
  shows "\<exists>x. construct E args (buffer_m (data_v v)) = Inr x \<and>
           size_v v' = size_v v \<and> capacity_m (data_v v') = grown v \<and>
           length (buffer_m (data_v v')) = grown v \<and>
           (\<forall>k\<le>size_v v. buffer_m (data_v v') ! k =
              (if k < i then buffer_m (data_v v) ! k else if k = i then Some x
               else buffer_m (data_v v) ! (k - 1))) \<and>
           (\<forall>k. size_v v < k \<and> k < grown v \<longrightarrow> buffer_m (data_v v') ! k = None)"
proof -
  let ?buf = "buffer_m (data_v v)"
  let ?n = "size_v v"
  let ?c = "grown v"
  from e obtain new_data x old1 new1 old2 new2 where
    al: "RawMemory_sized E ?c = Inr new_data"
    and c: "construct E args ?buf = Inr x"
    and ok1: "fst (CopyOrMoveNElem E ?buf 0 i ((buffer_m new_data)[i := Some x]) 0) = None"
    and old1: "old1 = fst (snd (CopyOrMoveNElem E ?buf 0 i ((buffer_m new_data)[i := Some x]) 0))"
    and new1: "new1 = snd (snd (CopyOrMoveNElem E ?buf 0 i ((buffer_m new_data)[i := Some x]) 0))"
    and ok2: "fst (CopyOrMoveNElem E old1 i (?n - i) new1 (i + 1)) = None"
    and new2: "new2 = snd (snd (CopyOrMoveNElem E old1 i (?n - i) new1 (i + 1)))"
    and v': "v' = v\<lparr>data_v := \<lparr>buffer_m = new2, capacity_m = capacity_m new_data\<rparr>\<rparr>"
    and ix: "i < length (buffer_m new_data)"
    by (rule Emplace_realloc_None_D)
  have "length new1 = length (buffer_m new_data)" by (simp add: new1)
  from Emplace_realloc_block [OF i al ix ok2 this] have nd: "buffer_m new_data = replicate ?c None"
    and ndc: "capacity_m new_data = ?c" by auto
  let ?d0 = "(replicate ?c None)[i := Some x]"
  have gt: "?n < ?c" by (simp add: grown_def)
  have l0: "length ?d0 = ?c" by simp
  have l1: "length new1 = ?c" by (simp add: new1 nd)
  have l2: "length new2 = ?c" by (simp add: new2 l1)
  have p: "new1 ! k = ?buf ! k" if "k < i" for k
    using CopyOrMove_success [OF ok1 vs that, unfolded nd] that i gt by (simp add: new1 nd)
  have q: "new1 ! k = ?d0 ! k" if "i \<le> k" for k
    using CopyOrMove_dst_outside [of k 0 i E ?buf 0 ?d0] that by (simp add: new1 nd)
  have o: "old1 ! k = ?buf ! k" if "i \<le> k" for k
    using CopyOrMove_src_outside [of k 0 i E ?buf ?d0 0] that by (simp add: old1 nd)
  have s: "new2 ! (i + 1 + k) = ?buf ! (i + k)" if "k < ?n - i" for k
  proof -
    from that gt have "i + 1 + k < length new1" by (simp add: l1)
    from CopyOrMove_success [OF ok2 vs that this] o [of "i + k"] show ?thesis
      by (simp add: new2)
  qed
  have r: "new2 ! k = new1 ! k" if "k \<le> i \<or> ?n < k" for k
    using CopyOrMove_dst_outside [of k "i + 1" "?n - i" E old1 i new1] that i by (auto simp: new2)
  have slots: "new2 ! k = (if k < i then ?buf ! k else if k = i then Some x else ?buf ! (k - 1))"
    if kn: "k \<le> ?n" for k
  proof -
    consider "k < i" | "k = i" | "i < k" using kn by linarith
    then show ?thesis
    proof cases
      case 1
      with r [of k] p [of k] show ?thesis by simp
    next
      case 2
      with r [of k] q [of k] i gt show ?thesis by simp
    next
      case 3
      then obtain j where j: "k = i + 1 + j" by (metis Suc_eq_plus1 add_Suc less_iff_Suc_add)
      with kn have "j < ?n - i" by simp
      from s [OF this] j 3 show ?thesis by simp
    qed
  qed
  have above: "new2 ! k = None" if "?n < k" "k < ?c" for k
    using r [of k] q [of k] that i by simp
  from c slots above l2 ndc show ?thesis
    by (auto simp: v')
qed

subsection \<open>A returning Emplace\<close>

lemma Emplace_Inr_D:
  assumes "Emplace E i args v = (Inr r, v')"
  obtains (at_end) x where "i = size_v v" "size_v v + 1 \<le> capacity_m (data_v v)"
      "construct E args (buffer_m (data_v v)) = Inr x" "r = i"
      "v' = (set_buffer v ((buffer_m (data_v v))[size_v v := Some x]))\<lparr>size_v := size_v v + 1\<rparr>"
    | (shift) v1 where "i < size_v v" "size_v v + 1 \<le> capacity_m (data_v v)"
      "Emplace_shift E i args v = (None, v1)" "r = i" "v' = v1\<lparr>size_v := size_v v1 + 1\<rparr>"
    | (realloc) v1 m where "i \<le> size_v v" "\<not> size_v v + 1 \<le> capacity_m (data_v v)"
      "Emplace_realloc E i args v = (None, v1, m)" "r = i" "v' = v1\<lparr>size_v := size_v v1 + 1\<rparr>"
proof -
  from assms have i: "i \<le> size_v v"
    by (auto simp: Emplace_def split: if_splits)
  show ?thesis
  proof (cases "size_v v + 1 \<le> capacity_m (data_v v)")
    case True
    show ?thesis
    proof (cases "i = size_v v")
      case e: True
      with True assms obtain x where "construct E args (buffer_m (data_v v)) = Inr x"
        by (auto simp: Emplace_def Let_def split: sum.splits)
      with True e assms show ?thesis
        by (intro at_end [of x]) (auto simp: Emplace_def Let_def split: if_splits)
    next
      case False
      with i have lt: "i < size_v v" by simp
      with True assms obtain v1 where "Emplace_shift E i args v = (None, v1)"
        by (auto simp: Emplace_def Let_def split: prod.splits option.splits)
      with True lt assms show ?thesis
        by (intro shift [of v1]) (auto simp: Emplace_def Let_def)
    qed
  next
    case False
    with i assms obtain v1 m where "Emplace_realloc E i args v = (None, v1, m)"
      by (auto simp: Emplace_def Let_def split: prod.splits option.splits)
    with False i assms show ?thesis
      by (intro realloc [of v1 m]) (auto simp: Emplace_def Let_def)
  qed
qed

lemma Emplace_slots:
  assumes inv: "Vector_inv v" and vs: "value_semantics E"
    and e: "Emplace E i args v = (Inr r, v')"
  shows "\<exists>x. construct E args (buffer_m (data_v v)) = Inr x \<and> r = i \<and> i \<le> size_v v \<and>
           size_v v' = size_v v + 1 \<and>
           capacity_m (data_v v') =
             (if size_v v + 1 \<le> capacity_m (data_v v) then capacity_m (data_v v) else grown v) \<and>
           length (buffer_m (data_v v')) = capacity_m (data_v v') \<and>
           size_v v < capacity_m (data_v v') \<and>
           (\<forall>k\<le>size_v v. buffer_m (data_v v') ! k =
              (if k < i then buffer_m (data_v v) ! k else if k = i then Some x
               else buffer_m (data_v v) ! (k - 1)))"
  using e
proof (cases rule: Emplace_Inr_D)
  case (at_end x)
  with inv show ?thesis
    by (auto simp: Vector_inv_iff)
next
  case (shift v1)
  from Emplace_shift_success [OF inv vs shift(1,2,3)] shift inv show ?thesis
    by (auto simp: Vector_inv_iff)
next
  case (realloc v1 m)
  have "size_v v < grown v" by (simp add: grown_def)
  with Emplace_realloc_success [OF inv vs realloc(1,3)] realloc show ?thesis
    by auto
qed

lemma Emplace_elems:
  assumes inv: "Vector_inv v" and vs: "value_semantics E"
    and e: "Emplace E i args v = (Inr r, v')"
  shows "\<exists>x. construct E args (buffer_m (data_v v)) = Inr x \<and>
           elems v' = take i (elems v) @ [x] @ drop i (elems v)"
proof -
  from Emplace_slots [OF inv vs e] obtain x where
    c: "construct E args (buffer_m (data_v v)) = Inr x" and i: "i \<le> size_v v"
    and n: "size_v v' = size_v v + 1"
    and l: "length (buffer_m (data_v v')) = capacity_m (data_v v')"
    and lt: "size_v v < capacity_m (data_v v')"
    and s: "\<forall>k\<le>size_v v. buffer_m (data_v v') ! k =
              (if k < i then buffer_m (data_v v) ! k else if k = i then Some x
               else buffer_m (data_v v) ! (k - 1))"
    by blast
  from inv have "size_v v \<le> length (buffer_m (data_v v))" by (simp add: Vector_inv_iff)
  from inserted_elems [OF i this _ s] l lt n c show ?thesis
    by (simp add: elems_def)
qed

lemma Emplace_success_inv:
  assumes inv: "Vector_inv v" and vs: "value_semantics E"
    and e: "Emplace E i args v = (Inr r, v')"
  shows "Vector_inv v'"
proof -
  from Emplace_slots [OF inv vs e] obtain x where
    i: "i \<le> size_v v" and n: "size_v v' = size_v v + 1"
    and l: "length (buffer_m (data_v v')) = capacity_m (data_v v')"
    and lt: "size_v v < capacity_m (data_v v')"
    and s: "\<forall>k\<le>size_v v. buffer_m (data_v v') ! k =
              (if k < i then buffer_m (data_v v) ! k else if k = i then Some x
               else buffer_m (data_v v) ! (k - 1))"
    by blast
  have "buffer_m (data_v v') ! k \<noteq> None" if "k \<le> size_v v" for k
    using s that inv i by (auto simp: Vector_inv_iff)
  with n l lt show ?thesis
    by (auto simp: Vector_inv_iff)
qed

subsection \<open>Emplace returns when nothing throws\<close>

lemma args_ok_construct:
  assumes "nothrow E" "Vector_inv v" "args_ok args v"
  shows "\<exists>x. construct E args (buffer_m (data_v v)) = Inr x"
proof (rule construct_total [OF assms(1)])
  show "case args of Args r \<Rightarrow> r \<noteq> None
        | ConstRef (Own j) \<Rightarrow> live (buffer_m (data_v v)) j \<noteq> None | _ \<Rightarrow> True"
    using assms(2,3) inv_live [OF assms(2)]
    by (auto simp: args_ok_def split: ctor_args.splits cref.splits)
qed

lemma Emplace_shift_total:
  assumes nt: "nothrow E" and inv: "Vector_inv v" and i: "i < size_v v"
    and cap: "size_v v + 1 \<le> capacity_m (data_v v)" and a: "args_ok args v"
  shows "fst (Emplace_shift E i args v) = None"
proof -
  let ?buf = "buffer_m (data_v v)"
  let ?n = "size_v v"
  from i obtain m where m: "?n = Suc m" by (cases ?n) auto
  from nt have new: "operator_new E 1 = Room" and mt: "\<forall>x. move_ctor E x \<noteq> None"
    and ct: "\<forall>x. copy_ctor E x \<noteq> None" and at: "\<forall>d s. move_assign E d s \<noteq> None"
    by (simp_all add: nothrow_def)
  from args_ok_construct [OF nt inv a] obtain val where c: "construct E args ?buf = Inr val" ..
  from inv m have "live ?buf m \<noteq> None" by (simp add: inv_live)
  moreover from inv cap m have "Suc m < length ?buf" by (simp add: Vector_inv_iff)
  ultimately have ok1: "fst (CopyOrMoveNElem_same E ?buf m (Suc 0) (Suc m)) = None"
    using mt ct by (intro CopyOrMove_same_one_total) auto
  let ?b1 = "snd (CopyOrMoveNElem_same E ?buf m (Suc 0) (Suc m))"
  from inv have len: "?n \<le> length ?buf" by (simp add: Vector_inv_iff)
  have l1: "live ?b1 j \<noteq> None" if "j \<le> m" for j
  proof -
    from that m len have "j < length ?buf" by simp
    moreover from that m inv have "?buf ! j \<noteq> None" by (simp add: Vector_inv_iff)
    ultimately show ?thesis
      using CopyOrMove_same_one_live [of j ?buf E m "Suc m"] by (simp add: live_def)
  qed
  then have "\<forall>j. i \<le> j \<and> j \<le> m \<longrightarrow> live ?b1 j \<noteq> None" by simp
  from std_move_backward_total [OF at this]
  have ok2: "fst (std_move_backward E ?b1 i m (Suc m)) = None" .
  let ?b2 = "snd (std_move_backward E ?b1 i m (Suc m))"
  from i m l1 [of i] have "i < length ?b1" "?b1 ! i \<noteq> None"
    by (auto simp: live_def split: if_splits)
  with std_move_backward_shape [of i ?b1 E i m "Suc m"] have "live ?b2 i \<noteq> None"
    by (simp add: live_def)
  then obtain y where y: "live ?b2 i = Some y" by auto
  from at have "move_assign E y val \<noteq> None" by blast
  then obtain p where p: "move_assign E y val = Some p" by blast
  from new c ok1 ok2 y p m show ?thesis
    by (cases p) (simp add: Emplace_shift_def case_prod_unfold split: option.splits)
qed

lemma Emplace_realloc_total:
  assumes nt: "nothrow E" and inv: "Vector_inv v" and i: "i \<le> size_v v" and a: "args_ok args v"
  shows "fst (Emplace_realloc E i args v) = None"
proof -
  let ?buf = "buffer_m (data_v v)"
  let ?n = "size_v v"
  from nt have new: "operator_new E (grown v) = Room"
    and mt: "use_move E \<longrightarrow> (\<forall>x. move_ctor E x \<noteq> None)"
    and ct: "\<not> use_move E \<longrightarrow> (\<forall>x. copy_ctor E x \<noteq> None)"
    by (simp_all add: nothrow_def)
  define nd :: "'a RawMemory" where "nd = \<lparr>buffer_m = replicate (grown v) None, capacity_m = grown v\<rparr>"
  from RawMemory_sized_total [OF new] have nd: "RawMemory_sized E (grown v) = Inr nd"
    by (simp add: nd_def)
  have lnd: "length (buffer_m nd) = grown v" by (simp add: nd_def)
  have gt: "?n < grown v" by (simp add: grown_def)
  from args_ok_construct [OF nt inv a] obtain x where c: "construct E args ?buf = Inr x" ..
  let ?d0 = "(buffer_m nd)[i := Some x]"
  have "\<forall>k<i. live ?buf (0 + k) \<noteq> None"
    using inv i by (simp add: inv_live)
  moreover from i gt lnd have "0 + i \<le> length ?d0" by simp
  ultimately have ok1: "fst (CopyOrMoveNElem E ?buf 0 i ?d0 0) = None"
    by (rule CopyOrMove_total [OF mt ct])
  let ?old1 = "fst (snd (CopyOrMoveNElem E ?buf 0 i ?d0 0))"
  let ?new1 = "snd (snd (CopyOrMoveNElem E ?buf 0 i ?d0 0))"
  from inv have len: "?n \<le> length ?buf" by (simp add: Vector_inv_iff)
  have "\<forall>k<?n - i. live ?old1 (i + k) \<noteq> None"
  proof (intro allI impI)
    fix k assume "k < ?n - i"
    with len inv have "i + k < length ?buf" "?buf ! (i + k) \<noteq> None"
      by (auto simp: Vector_inv_iff)
    with CopyOrMove_src_live [of "i + k" ?buf E 0 i ?d0 0]
    show "live ?old1 (i + k) \<noteq> None" by (simp add: live_def)
  qed
  moreover from i gt lnd have "i + 1 + (?n - i) \<le> length ?new1" by simp
  ultimately have ok2: "fst (CopyOrMoveNElem E ?old1 i (?n - i) ?new1 (i + 1)) = None"
    by (rule CopyOrMove_total [OF mt ct])
  from i gt lnd have "i < length (buffer_m nd)" by simp
  with nd c ok1 ok2 show ?thesis
    by (simp add: Emplace_realloc_def grown_def case_prod_unfold split: option.splits)
qed

lemma Emplace_total:
  assumes nt: "nothrow E" and inv: "Vector_inv v" and i: "i \<le> size_v v" and a: "args_ok args v"
  shows "fst (Emplace E i args v) = Inr i"
proof (cases "size_v v + 1 \<le> capacity_m (data_v v)")
  case True
  show ?thesis
  proof (cases "i = size_v v")
    case e: True
    from args_ok_construct [OF nt inv a] obtain x where
      "construct E args (buffer_m (data_v v)) = Inr x" ..
    moreover from inv True have "size_v v < length (buffer_m (data_v v))"
      by (simp add: Vector_inv_iff)
    ultimately show ?thesis using True e by (simp add: Emplace_def Let_def)
  next
    case False
    with i have "i < size_v v" by simp
    from Emplace_shift_total [OF nt inv this True a] True False i show ?thesis
      by (simp add: Emplace_def Let_def case_prod_unfold split: option.splits)
  qed
next
  case False
  from Emplace_realloc_total [OF nt inv i a] False i show ?thesis
    by (simp add: Emplace_def Let_def case_prod_unfold split: option.splits)
qed

section \<open>Emplace keeps the invariant\<close>

lemma CopyOrMove_success_live:
  assumes ok: "fst (CopyOrMoveNElem E src f n dst d) = None" and k: "k < n"
    and d: "d + k < length dst"
  shows "snd (snd (CopyOrMoveNElem E src f n dst d)) ! (d + k) \<noteq> None"
proof (cases "use_move E")
  case True
  with ok have "fst (uninitialized_move_n E src f n dst d) = None"
    by (simp add: CopyOrMoveNElem_def)
  from umove_success [OF this k] d True show ?thesis
    by (auto simp: CopyOrMoveNElem_def)
next
  case False
  with ok have "fst (uninitialized_copy_n E src f n dst d) = None"
    by (simp add: CopyOrMoveNElem_def case_prod_unfold)
  from ucopy_success [OF this k] d False show ?thesis
    by (auto simp: CopyOrMoveNElem_def case_prod_unfold)
qed

lemma CopyOrMove_same_one_success_live:
  assumes ok: "fst (CopyOrMoveNElem_same E buf s (Suc 0) d) = None" and d: "d < length buf"
  shows "snd (CopyOrMoveNElem_same E buf s (Suc 0) d) ! d \<noteq> None"
  using assms
  by (auto simp: CopyOrMoveNElem_same_def split: option.splits if_splits)

lemma Emplace_shift_inv:
  assumes inv: "Vector_inv v" and i: "i < size_v v"
    and cap: "size_v v + 1 \<le> capacity_m (data_v v)"
  shows "size_v (snd (Emplace_shift E i args v)) = size_v v \<and>
         capacity_m (data_v (snd (Emplace_shift E i args v))) = capacity_m (data_v v) \<and>
         length (buffer_m (data_v (snd (Emplace_shift E i args v)))) = capacity_m (data_v v) \<and>
         (\<forall>k<size_v v. buffer_m (data_v (snd (Emplace_shift E i args v))) ! k \<noteq> None) \<and>
         (fst (Emplace_shift E i args v) = None \<longrightarrow>
            buffer_m (data_v (snd (Emplace_shift E i args v))) ! size_v v \<noteq> None)"
proof -
  let ?buf = "buffer_m (data_v v)"
  let ?n = "size_v v"
  let ?r1 = "CopyOrMoveNElem_same E ?buf (?n - 1) (Suc 0) ?n"
  let ?r2 = "std_move_backward E (snd ?r1) i (?n - 1) ?n"
  from inv cap have len: "length ?buf = capacity_m (data_v v)" and nlt: "?n < length ?buf"
    and lv: "\<And>k. k < ?n \<Longrightarrow> ?buf ! k \<noteq> None"
    by (auto simp: Vector_inv_iff)
  have l1: "length (snd ?r1) = length ?buf" by simp
  have v1: "snd ?r1 ! k \<noteq> None" if "k < ?n" for k
    using that nlt lv [of k] CopyOrMove_same_one_live [of k ?buf E "?n - 1" ?n] by simp
  have s1: "fst ?r1 = None \<Longrightarrow> snd ?r1 ! ?n \<noteq> None"
    using CopyOrMove_same_one_success_live [of E ?buf "?n - 1" ?n] nlt by simp
  have l2: "length (snd ?r2) = length ?buf" by simp
  have v2: "snd ?r2 ! k \<noteq> None" if "k < ?n" for k
    using that nlt v1 [of k] std_move_backward_shape [of k "snd ?r1" E i "?n - 1" ?n] by simp
  have s2: "fst ?r1 = None \<Longrightarrow> snd ?r2 ! ?n \<noteq> None"
    using s1 nlt std_move_backward_shape [of ?n "snd ?r1" E i "?n - 1" ?n] by simp
  have v3: "(snd ?r2)[i := Some y] ! k \<noteq> None" if "k < ?n" for k y
    using that v2 [of k] nlt l2 by (cases "k = i") simp_all
  have s3: "fst ?r1 = None \<Longrightarrow> (snd ?r2)[i := Some y] ! ?n \<noteq> None" for y
    using s2 i by simp
  show ?thesis
    using len lv l1 v1 s1 l2 v2 s2 v3 s3
    by (simp add: Emplace_shift_def case_prod_unfold split: sum.splits option.splits prod.splits)
qed

lemma Emplace_realloc_failure_inv:
  assumes inv: "Vector_inv v" and f: "fst (Emplace_realloc E i args v) \<noteq> None"
  shows "size_v (fst (snd (Emplace_realloc E i args v))) = size_v v \<and>
         capacity_m (data_v (fst (snd (Emplace_realloc E i args v)))) = capacity_m (data_v v) \<and>
         length (buffer_m (data_v (fst (snd (Emplace_realloc E i args v))))) = capacity_m (data_v v) \<and>
         (\<forall>k<size_v v. buffer_m (data_v (fst (snd (Emplace_realloc E i args v)))) ! k \<noteq> None)"
proof -
  let ?buf = "buffer_m (data_v v)"
  let ?n = "size_v v"
  from inv have len: "length ?buf = capacity_m (data_v v)" and n: "?n \<le> length ?buf"
    and lv: "\<And>k. k < ?n \<Longrightarrow> ?buf ! k \<noteq> None"
    by (auto simp: Vector_inv_iff)
  have v1: "fst (snd (CopyOrMoveNElem E ?buf 0 i dst 0)) ! k \<noteq> None" if "k < ?n" for k dst
    using that n lv [of k] CopyOrMove_src_live [of k ?buf E 0 i dst 0] by simp
  have v2: "fst (snd (CopyOrMoveNElem E (fst (snd (CopyOrMoveNElem E ?buf 0 i dst 0))) i (?n - i)
      dst' (i + 1))) ! k \<noteq> None" if "k < ?n" for k dst dst'
    using that n v1 [of k dst]
      CopyOrMove_src_live [of k "fst (snd (CopyOrMoveNElem E ?buf 0 i dst 0))" E i "?n - i" dst' "i + 1"]
    by simp
  show ?thesis
    using f len lv v1 v2
    by (auto simp: Emplace_realloc_def case_prod_unfold RawMemory_Swap_def
             split: sum.splits option.splits)
qed

lemma Emplace_realloc_success_inv:
  assumes inv: "Vector_inv v" and i: "i \<le> size_v v"
    and e: "Emplace_realloc E i args v = (None, v', m)"
  shows "size_v v' = size_v v \<and> capacity_m (data_v v') = grown v \<and>
         length (buffer_m (data_v v')) = grown v \<and>
         (\<forall>k\<le>size_v v. buffer_m (data_v v') ! k \<noteq> None)"
proof -
  let ?buf = "buffer_m (data_v v)"
  let ?n = "size_v v"
  let ?c = "grown v"
  from e obtain new_data x old1 new1 old2 new2 where
    al: "RawMemory_sized E ?c = Inr new_data"
    and ok1: "fst (CopyOrMoveNElem E ?buf 0 i ((buffer_m new_data)[i := Some x]) 0) = None"
    and new1: "new1 = snd (snd (CopyOrMoveNElem E ?buf 0 i ((buffer_m new_data)[i := Some x]) 0))"
    and ok2: "fst (CopyOrMoveNElem E old1 i (?n - i) new1 (i + 1)) = None"
    and new2: "new2 = snd (snd (CopyOrMoveNElem E old1 i (?n - i) new1 (i + 1)))"
    and v': "v' = v\<lparr>data_v := \<lparr>buffer_m = new2, capacity_m = capacity_m new_data\<rparr>\<rparr>"
    and ix: "i < length (buffer_m new_data)"
    by (rule Emplace_realloc_None_D)
  have "length new1 = length (buffer_m new_data)" by (simp add: new1)
  from Emplace_realloc_block [OF i al ix ok2 this] have nd: "buffer_m new_data = replicate ?c None"
    and ndc: "capacity_m new_data = ?c" by auto
  let ?d0 = "(replicate ?c None)[i := Some x]"
  have gt: "?n < ?c" by (simp add: grown_def)
  have l1: "length new1 = ?c" by (simp add: new1 nd)
  have l2: "length new2 = ?c" by (simp add: new2 l1)
  have p: "new1 ! k \<noteq> None" if "k < i" for k
    using CopyOrMove_success_live [OF ok1 that, unfolded nd] that i gt by (simp add: new1 nd)
  have q: "new1 ! i \<noteq> None"
    using CopyOrMove_dst_outside [of i 0 i E ?buf 0 ?d0] i gt by (simp add: new1 nd)
  have s: "new2 ! (i + 1 + k) \<noteq> None" if "k < ?n - i" for k
  proof -
    from that gt have "i + 1 + k < length new1" by (simp add: l1)
    from CopyOrMove_success_live [OF ok2 that this] show ?thesis
      by (simp add: new2)
  qed
  have r: "new2 ! k = new1 ! k" if "k \<le> i" for k
    using CopyOrMove_dst_outside [of k "i + 1" "?n - i" E old1 i new1] that by (auto simp: new2)
  have "new2 ! k \<noteq> None" if kn: "k \<le> ?n" for k
  proof -
    consider "k < i" | "k = i" | "i < k" using kn by linarith
    then show ?thesis
    proof cases
      case 1
      with r [of k] p [of k] show ?thesis by simp
    next
      case 2
      with r [of k] q show ?thesis by simp
    next
      case 3
      then obtain j where j: "k = i + 1 + j" by (metis Suc_eq_plus1 add_Suc less_iff_Suc_add)
      with kn have "j < ?n - i" by simp
      from s [OF this] j show ?thesis by simp
    qed
  qed
  with l2 ndc show ?thesis
    by (auto simp: v')
qed

lemma Emplace_inv: "Vector_inv v \<Longrightarrow> Vector_inv (snd (Emplace E i args v))"
proof -
  assume inv: "Vector_inv v"
  show ?thesis
  proof (cases "i \<le> size_v v")
    case False
    with inv show ?thesis by (simp add: Emplace_def)
  next
    case i: True
    show ?thesis
    proof (cases "size_v v + 1 \<le> capacity_m (data_v v)")
      case cap: True
      show ?thesis
      proof (cases "i = size_v v")
        case True
        with inv cap show ?thesis
          by (cases "i < size_v v")
             (auto simp: Emplace_def Let_def Vector_inv_iff nth_list_update less_Suc_eq
                   split: sum.splits)
      next
        case False
        with i have lt: "i < size_v v" by simp
        from Emplace_shift_inv [OF inv lt cap, of E args] cap lt inv show ?thesis
          by (auto simp: Emplace_def Let_def Vector_inv_iff case_prod_unfold less_Suc_eq
                   split: option.splits)
      qed
    next
      case cap: False
      show ?thesis
      proof (cases "fst (Emplace_realloc E i args v)")
        case None
        then have "Emplace_realloc E i args v
            = (None, fst (snd (Emplace_realloc E i args v)), snd (snd (Emplace_realloc E i args v)))"
          by (metis prod.collapse)
        from Emplace_realloc_success_inv [OF inv i this] None cap i show ?thesis
          by (auto simp: Emplace_def Let_def Vector_inv_iff case_prod_unfold grown_def less_Suc_eq)
      next
        case (Some e)
        then have "fst (Emplace_realloc E i args v) \<noteq> None" by simp
        from Emplace_realloc_failure_inv [OF inv this] Some cap i inv show ?thesis
          by (auto simp: Emplace_def Let_def Vector_inv_iff case_prod_unfold)
      qed
    qed
  qed
qed

section \<open>A throw in the reallocating branch\<close>

lemma replicate_update_same: "(replicate c x)[i := x] = replicate c x"
  by (cases "i < c") (simp_all add: list_update_same_conv list_update_beyond)

lemma destroy_n_calls_upt: "destroy_n_calls f n = [f..<f + n]"
  by (induction n arbitrary: f) (simp_all add: upt_rec)

text \<open>\<open>destroy_n\<close> ends the objects in the slots of \<open>destroy_n_calls\<close>, one after the other.\<close>

lemma destroy_n_by_calls:
  "destroy_n buf f n = fold (\<lambda>i b. b[i := None]) (destroy_n_calls f n) buf"
  by (induction n arbitrary: buf f) simp_all

text \<open>A move constructor that cannot throw leaves only undefined behaviour as a way to fail.\<close>

lemma umove_error:
  "(\<forall>x. move_ctor E x \<noteq> None) \<Longrightarrow> fst (uninitialized_move_n E src f n dst d) = Some e \<Longrightarrow>
   e = UndefinedBehaviour"
proof (induction n arbitrary: src dst f d)
  case 0
  then show ?case by simp
next
  case (Suc n)
  show ?case
  proof (cases "live src f")
    case None
    with Suc.prems(2) show ?thesis by (simp split: if_splits)
  next
    case (Some x)
    from Suc.prems(1) obtain y x' where m: "move_ctor E x = Some (y, x')"
      by (metis option.exhaust surj_pair)
    from Suc.IH [OF Suc.prems(1), of "src[f := Some x']" "Suc f" "dst[d := Some y]" "Suc d"]
      Suc.prems(2) Some m
    show ?thesis
      by (auto simp: case_prod_unfold split: option.splits if_splits)
  qed
qed

lemma CopyOrMove_throw_copies:
  assumes "use_move E \<longrightarrow> (\<forall>x. move_ctor E x \<noteq> None)"
    and "fst (CopyOrMoveNElem E src f n dst d) = Some e" and "e \<noteq> UndefinedBehaviour"
  shows "\<not> use_move E"
proof
  assume u: "use_move E"
  with assms(1) have "\<forall>x. move_ctor E x \<noteq> None" by blast
  moreover from u assms(2) have "fst (uninitialized_move_n E src f n dst d) = Some e"
    by (simp add: CopyOrMoveNElem_def)
  ultimately have "e = UndefinedBehaviour" by (rule umove_error)
  with assms(3) show False by simp
qed

text \<open>Relocation over live sources into slots of the block has no undefined behaviour.\<close>

lemma ucopy_defined:
  "(\<forall>k<n. live src (f + k) \<noteq> None) \<Longrightarrow> d + n \<le> length dst \<Longrightarrow>
   fst (uninitialized_copy_n E src f n dst d) \<noteq> Some UndefinedBehaviour"
proof (induction n arbitrary: dst f d)
  case 0
  then show ?case by simp
next
  case (Suc n)
  from Suc.prems(1) have "live src f \<noteq> None" by (metis add.right_neutral zero_less_Suc)
  then obtain x where x: "live src f = Some x" by auto
  have a: "\<forall>k<n. live src (Suc f + k) \<noteq> None"
    using Suc.prems(1) by (metis Suc_less_eq add_Suc_shift)
  have b: "Suc d + n \<le> length (dst[d := Some y])" for y using Suc.prems(2) by simp
  from Suc.IH [OF a b] x Suc.prems(2) show ?case
    by (auto simp: case_prod_unfold split: option.splits)
qed

lemma umove_defined:
  "(\<forall>k<n. live src (f + k) \<noteq> None) \<Longrightarrow> d + n \<le> length dst \<Longrightarrow>
   fst (uninitialized_move_n E src f n dst d) \<noteq> Some UndefinedBehaviour"
proof (induction n arbitrary: src dst f d)
  case 0
  then show ?case by simp
next
  case (Suc n)
  from Suc.prems(1) have "live src f \<noteq> None" by (metis add.right_neutral zero_less_Suc)
  then obtain x where x: "live src f = Some x" by auto
  have a: "\<forall>k<n. live (src[f := Some x']) (Suc f + k) \<noteq> None" for x'
  proof (intro allI impI)
    fix k assume "k < n"
    with Suc.prems(1) have "live src (f + Suc k) \<noteq> None" by (metis Suc_less_eq)
    then show "live (src[f := Some x']) (Suc f + k) \<noteq> None"
      by (simp add: live_def split: if_splits)
  qed
  have b: "Suc d + n \<le> length (dst[d := Some y])" for y using Suc.prems(2) by simp
  from Suc.IH [OF a b] x Suc.prems(2) show ?case
    by (auto simp: case_prod_unfold split: option.splits)
qed

lemma CopyOrMove_defined:
  assumes "\<forall>k<n. live src (f + k) \<noteq> None" and "d + n \<le> length dst"
  shows "fst (CopyOrMoveNElem E src f n dst d) \<noteq> Some UndefinedBehaviour"
  using ucopy_defined [OF assms, of E] umove_defined [OF assms, of E]
  by (cases "use_move E") (simp_all add: CopyOrMoveNElem_def case_prod_unfold)

lemma raw_block:
  assumes "RawMemory_sized E c = Inr nd"
  shows "buffer_m nd = replicate (length (buffer_m nd)) None"
  using RawMemory_sized_D [OF assms] by auto

lemma Emplace_realloc_prefix_failure:
  assumes al: "RawMemory_sized E (grown v) = Inr nd"
    and c: "construct E args (buffer_m (data_v v)) = Inr x"
    and ix: "i < length (buffer_m nd)"
    and f: "fst (CopyOrMoveNElem E (buffer_m (data_v v)) 0 i ((buffer_m nd)[i := Some x]) 0) = Some e"
  shows "snd (snd (CopyOrMoveNElem E (buffer_m (data_v v)) 0 i ((buffer_m nd)[i := Some x]) 0))
           = (buffer_m nd)[i := Some x] \<and>
         Emplace_realloc E i args v =
           (Some e,
            set_buffer v (fst (snd (CopyOrMoveNElem E (buffer_m (data_v v)) 0 i
                                      ((buffer_m nd)[i := Some x]) 0))),
            Some nd, [i])"
proof -
  let ?d0 = "(buffer_m nd)[i := Some x]"
  let ?r1 = "CopyOrMoveNElem E (buffer_m (data_v v)) 0 i ?d0 0"
  note raw = raw_block [OF al]
  have low: "\<forall>k. 0 \<le> k \<and> k < 0 + i \<and> k < length ?d0 \<longrightarrow> ?d0 ! k = None"
  proof (intro allI impI)
    fix k assume k: "0 \<le> k \<and> k < 0 + i \<and> k < length ?d0"
    then have "?d0 ! k = buffer_m nd ! k" by simp
    also from k have "\<dots> = None" by (subst raw) simp
    finally show "?d0 ! k = None" .
  qed
  from f have ne: "fst ?r1 \<noteq> None" by simp
  from CopyOrMove_failure_dst [OF ne low] have nw: "snd (snd ?r1) = ?d0" .
  have "?d0[i := None] = buffer_m nd"
    by (subst (1 2) raw) (simp add: replicate_update_same)
  then have "nd\<lparr>buffer_m := ?d0[i := None]\<rparr> = nd" by simp
  with al c ix f nw show ?thesis
    by (simp add: Emplace_realloc_def grown_def [symmetric] case_prod_unfold)
qed

lemma Emplace_realloc_suffix_failure:
  assumes al: "RawMemory_sized E (grown v) = Inr nd"
    and c: "construct E args (buffer_m (data_v v)) = Inr x"
    and ix: "i < length (buffer_m nd)"
    and ok1: "fst (CopyOrMoveNElem E (buffer_m (data_v v)) 0 i ((buffer_m nd)[i := Some x]) 0) = None"
    and r1: "r1 = CopyOrMoveNElem E (buffer_m (data_v v)) 0 i ((buffer_m nd)[i := Some x]) 0"
    and f: "fst (CopyOrMoveNElem E (fst (snd r1)) i (size_v v - i) (snd (snd r1)) (i + 1)) = Some e"
  shows "(\<forall>k<length (buffer_m nd).
            (snd (snd (CopyOrMoveNElem E (fst (snd r1)) i (size_v v - i) (snd (snd r1)) (i + 1))) ! k
               \<noteq> None) = (k \<le> i)) \<and>
         Emplace_realloc E i args v =
           (Some e,
            set_buffer v (fst (snd (CopyOrMoveNElem E (fst (snd r1)) i (size_v v - i)
                                      (snd (snd r1)) (i + 1)))),
            Some nd, [0..<i + 1])"
proof -
  let ?buf = "buffer_m (data_v v)"
  let ?d0 = "(buffer_m nd)[i := Some x]"
  let ?new1 = "snd (snd r1)"
  let ?r2 = "CopyOrMoveNElem E (fst (snd r1)) i (size_v v - i) ?new1 (i + 1)"
  note raw = raw_block [OF al]
  have l1: "length ?new1 = length (buffer_m nd)" by (simp add: r1)
  have d0: "?d0 ! k = None" if "k \<noteq> i" "k < length (buffer_m nd)" for k
  proof -
    from that have "?d0 ! k = buffer_m nd ! k" by simp
    also from that have "\<dots> = None" by (subst raw) simp
    finally show ?thesis .
  qed
  have p: "?new1 ! k \<noteq> None" if "k < i" for k
  proof -
    from that ix have "0 + k < length ?d0" by simp
    from CopyOrMove_success_live [OF ok1 that this] show ?thesis by (simp add: r1)
  qed
  have q: "?new1 ! k = ?d0 ! k" if "i \<le> k" for k
    using CopyOrMove_dst_outside [of k 0 i E ?buf 0 ?d0] that by (simp add: r1)
  from q [of i] ix have qi: "?new1 ! i \<noteq> None" by simp
  have high: "?new1 ! k = None" if "i < k" "k < length (buffer_m nd)" for k
    using q [of k] d0 [of k] that by simp
  have "\<forall>k. i + 1 \<le> k \<and> k < i + 1 + (size_v v - i) \<and> k < length ?new1 \<longrightarrow> ?new1 ! k = None"
    using high l1 by simp
  moreover from f have "fst ?r2 \<noteq> None" by simp
  ultimately have nw: "snd (snd ?r2) = ?new1" by (intro CopyOrMove_failure_dst)
  have found: "(?new1 ! k \<noteq> None) = (k \<le> i)" if "k < length (buffer_m nd)" for k
  proof (cases "k < i")
    case True
    with p [of k] show ?thesis by simp
  next
    case False
    show ?thesis
    proof (cases "k = i")
      case True
      with qi show ?thesis by simp
    next
      case ne: False
      with False have "i < k" by simp
      with high [OF this that] show ?thesis by simp
    qed
  qed
  have "destroy_n ?new1 0 (i + 1) = buffer_m nd"
  proof (rule nth_equalityI)
    show "length (destroy_n ?new1 0 (i + 1)) = length (buffer_m nd)" by (simp add: l1)
  next
    fix k assume "k < length (destroy_n ?new1 0 (i + 1))"
    then have k: "k < length (buffer_m nd)" by (simp add: l1)
    then have kl: "k < length ?new1" by (simp add: l1)
    have "buffer_m nd ! k = None" using k by (subst raw) simp
    with nth_destroy_n [OF kl, of 0 "i + 1"] high [of k] k
    show "destroy_n ?new1 0 (i + 1) ! k = buffer_m nd ! k"
      by (simp del: destroy_n.simps)
  qed
  then have "nd\<lparr>buffer_m := destroy_n ?new1 0 (i + 1)\<rparr> = nd" by simp
  moreover have "destroy_n_calls 0 (i + 1) = [0..<i + 1]"
    by (simp only: destroy_n_calls_upt add_0)
  ultimately have "Emplace_realloc E i args v = (Some e, set_buffer v (fst (snd ?r2)), Some nd, [0..<i + 1])"
    using al c ix ok1 f nw r1
    by (simp add: Emplace_realloc_def grown_def [symmetric] case_prod_unfold del: destroy_n.simps destroy_n_calls.simps upt_Suc)
  with found nw show ?thesis by simp
qed

lemma Emplace_realloc_strong:
  assumes inv: "Vector_inv v" and i: "i \<le> size_v v"
    and safe: "use_move E \<longrightarrow> (\<forall>x. move_ctor E x \<noteq> None)"
    and f: "Emplace_realloc E i args v = (Some e, v', m, log)"
    and ne: "e \<noteq> UndefinedBehaviour"
  shows "v' = v \<and> (\<forall>nd. m = Some nd \<longrightarrow>
           capacity_m nd = grown v \<and> list_all (\<lambda>s. s = None) (buffer_m nd))"
proof (cases "RawMemory_sized E (grown v)")
  case (Inl e')
  with f show ?thesis by (auto simp: Emplace_realloc_def grown_def [symmetric])
next
  case (Inr nd)
  note al = this
  from RawMemory_sized_D [OF al] have cap: "capacity_m nd = grown v"
    and raw: "list_all (\<lambda>s. s = None) (buffer_m nd)"
    by (auto simp: list_all_length)
  let ?buf = "buffer_m (data_v v)"
  show ?thesis
  proof (cases "construct E args ?buf")
    case (Inl e')
    with al f cap raw show ?thesis by (auto simp: Emplace_realloc_def grown_def [symmetric])
  next
    case (Inr x)
    note c = this
    show ?thesis
    proof (cases "i < length (buffer_m nd)")
      case False
      with al c f ne show ?thesis by (auto simp: Emplace_realloc_def grown_def [symmetric])
    next
      case ix: True
      let ?r1 = "CopyOrMoveNElem E ?buf 0 i ((buffer_m nd)[i := Some x]) 0"
      show ?thesis
      proof (cases "fst ?r1")
        case (Some e1)
        from Emplace_realloc_prefix_failure [OF al c ix Some] f
        have e1: "e1 = e" and v': "v' = set_buffer v (fst (snd ?r1))" and m: "m = Some nd"
          by simp_all
        from CopyOrMove_throw_copies [OF safe Some] e1 ne have "\<not> use_move E" by simp
        then have "fst (snd ?r1) = ?buf" by (rule CopyOrMove_src_copy)
        with v' m cap raw show ?thesis by simp
      next
        case None
        let ?r2 = "CopyOrMoveNElem E (fst (snd ?r1)) i (size_v v - i) (snd (snd ?r1)) (i + 1)"
        show ?thesis
        proof (cases "fst ?r2")
          case (Some e2)
          from Emplace_realloc_suffix_failure [OF al c ix None refl Some] f
          have e2: "e2 = e" and v': "v' = set_buffer v (fst (snd ?r2))" and m: "m = Some nd"
            by simp_all
          from CopyOrMove_throw_copies [OF safe Some] e2 ne have nu: "\<not> use_move E" by simp
          then have "fst (snd ?r2) = fst (snd ?r1)" by (rule CopyOrMove_src_copy)
          also from nu have "\<dots> = ?buf" by (rule CopyOrMove_src_copy)
          finally show ?thesis using v' m cap raw by simp
        next
          case n2: None
          with al c ix None f show ?thesis
            by (simp add: Emplace_realloc_def grown_def [symmetric] case_prod_unfold)
        qed
      qed
    qed
  qed
qed

lemma Emplace_realloc_released:
  assumes inv: "Vector_inv v" and cap: "\<not> size_v v + 1 \<le> capacity_m (data_v v)"
    and e: "Emplace_realloc E i args v = (None, v', m)"
  shows "\<exists>od. m = (Some od, []) \<and> capacity_m od = capacity_m (data_v v) \<and>
           buffer_m od = replicate (capacity_m (data_v v)) None"
proof -
  from e obtain new_data x old1 new1 old2 new2 where
    "RawMemory_sized E (grown v) = Inr new_data"
    and "construct E args (buffer_m (data_v v)) = Inr x"
    and "fst (CopyOrMoveNElem E (buffer_m (data_v v)) 0 i ((buffer_m new_data)[i := Some x]) 0) = None"
    and old1: "old1 = fst (snd (CopyOrMoveNElem E (buffer_m (data_v v)) 0 i
        ((buffer_m new_data)[i := Some x]) 0))"
    and "new1 = snd (snd (CopyOrMoveNElem E (buffer_m (data_v v)) 0 i
        ((buffer_m new_data)[i := Some x]) 0))"
    and "fst (CopyOrMoveNElem E old1 i (size_v v - i) new1 (i + 1)) = None"
    and old2: "old2 = fst (snd (CopyOrMoveNElem E old1 i (size_v v - i) new1 (i + 1)))"
    and "new2 = snd (snd (CopyOrMoveNElem E old1 i (size_v v - i) new1 (i + 1)))"
    and "v' = v\<lparr>data_v := \<lparr>buffer_m = new2, capacity_m = capacity_m new_data\<rparr>\<rparr>"
    and m: "m = (Some \<lparr>buffer_m = destroy_n old2 0 (size_v v), capacity_m = capacity_m (data_v v)\<rparr>, [])"
    and "i < length (buffer_m new_data)"
    by (rule Emplace_realloc_None_D)
  have l: "length old2 = length (buffer_m (data_v v))" by (simp add: old2 old1)
  from inv cap have sz: "size_v v = capacity_m (data_v v)"
    and len: "length (buffer_m (data_v v)) = capacity_m (data_v v)"
    by (auto simp: Vector_inv_iff)
  have "destroy_n old2 0 (size_v v) = replicate (capacity_m (data_v v)) None"
    by (rule nth_equalityI) (simp_all add: l len sz nth_destroy_n)
  with m show ?thesis by simp
qed

lemma construct_defined:
  assumes "Vector_inv v" and "args_ok args v"
  shows "construct E args (buffer_m (data_v v)) \<noteq> Inl UndefinedBehaviour"
proof (cases args)
  case (Args r)
  then show ?thesis by (simp split: option.splits)
next
  case (ConstRef c)
  show ?thesis
  proof (cases c)
    case (Outside x)
    with ConstRef show ?thesis by (simp split: option.splits)
  next
    case (Own j)
    with ConstRef assms(2) have "j < size_v v" by (simp add: args_ok_def)
    from inv_live [OF assms(1) this] ConstRef Own show ?thesis
      by (auto split: option.splits)
  qed
next
  case (Rvalue x)
  then show ?thesis by (simp split: option.splits)
qed

lemma Emplace_realloc_defined:
  assumes inv: "Vector_inv v" and i: "i \<le> size_v v" and a: "args_ok args v"
    and room: "\<forall>k. operator_new E (grown v) \<noteq> Short k"
  shows "fst (Emplace_realloc E i args v) \<noteq> Some UndefinedBehaviour"
proof (cases "RawMemory_sized E (grown v)")
  case (Inl e)
  then have "e = BadAlloc"
    by (auto simp: RawMemory_sized_def Allocate_def split: if_splits alloc.splits)
  with Inl show ?thesis by (simp add: Emplace_realloc_def grown_def [symmetric])
next
  case (Inr nd)
  note al = this
  have g0: "grown v \<noteq> 0" by (simp add: grown_def)
  from al room g0 have nd: "buffer_m nd = replicate (grown v) None"
    by (auto simp: RawMemory_sized_def Allocate_def split: if_splits alloc.splits)
  have gt: "size_v v < grown v" by (simp add: grown_def)
  let ?buf = "buffer_m (data_v v)"
  from inv have n: "size_v v \<le> length ?buf" and lv: "\<And>k. k < size_v v \<Longrightarrow> ?buf ! k \<noteq> None"
    by (auto simp: Vector_inv_iff)
  show ?thesis
  proof (cases "construct E args ?buf")
    case (Inl e)
    with construct_defined [OF inv a, of E] al show ?thesis
      by (simp add: Emplace_realloc_def grown_def [symmetric])
  next
    case (Inr x)
    note c = this
    from i gt nd have ix: "i < length (buffer_m nd)" by simp
    let ?d0 = "(buffer_m nd)[i := Some x]"
    let ?r1 = "CopyOrMoveNElem E ?buf 0 i ?d0 0"
    have "\<forall>k<i. live ?buf (0 + k) \<noteq> None" using inv i by (simp add: inv_live)
    moreover from ix have "0 + i \<le> length ?d0" by simp
    ultimately have d1: "fst ?r1 \<noteq> Some UndefinedBehaviour" by (rule CopyOrMove_defined)
    show ?thesis
    proof (cases "fst ?r1")
      case (Some e1)
      from Emplace_realloc_prefix_failure [OF al c ix Some] d1 Some show ?thesis by simp
    next
      case None
      let ?r2 = "CopyOrMoveNElem E (fst (snd ?r1)) i (size_v v - i) (snd (snd ?r1)) (i + 1)"
      have "\<forall>k<size_v v - i. live (fst (snd ?r1)) (i + k) \<noteq> None"
      proof (intro allI impI)
        fix k assume "k < size_v v - i"
        with n lv [of "i + k"] have "i + k < length ?buf" "?buf ! (i + k) \<noteq> None" by auto
        with CopyOrMove_src_live [of "i + k" ?buf E 0 i ?d0 0]
        show "live (fst (snd ?r1)) (i + k) \<noteq> None" by (simp add: live_def)
      qed
      moreover from i gt nd have "i + 1 + (size_v v - i) \<le> length (snd (snd ?r1))" by simp
      ultimately have d2: "fst ?r2 \<noteq> Some UndefinedBehaviour" by (rule CopyOrMove_defined)
      show ?thesis
      proof (cases "fst ?r2")
        case (Some e2)
        from Emplace_realloc_suffix_failure [OF al c ix None refl Some] d2 Some show ?thesis
          by simp
      next
        case n2: None
        with al c ix None show ?thesis
          by (simp add: Emplace_realloc_def grown_def [symmetric] case_prod_unfold)
      qed
    qed
  qed
qed

text \<open>
  In a block that has the slots asked for, only the constructor of the new
  element can meet undefined behaviour, and it runs before anything is changed.
\<close>

lemma Emplace_realloc_undefined:
  assumes inv: "Vector_inv v" and i: "i \<le> size_v v"
    and room: "\<forall>k. operator_new E (grown v) \<noteq> Short k"
    and f: "Emplace_realloc E i args v = (Some UndefinedBehaviour, v', m, log)"
  shows "v' = v"
proof (cases "RawMemory_sized E (grown v)")
  case (Inl e)
  with f show ?thesis by (simp add: Emplace_realloc_def grown_def [symmetric])
next
  case (Inr nd)
  note al = this
  have g0: "grown v \<noteq> 0" by (simp add: grown_def)
  from al room g0 have nd: "buffer_m nd = replicate (grown v) None"
    by (auto simp: RawMemory_sized_def Allocate_def split: if_splits alloc.splits)
  have gt: "size_v v < grown v" by (simp add: grown_def)
  let ?buf = "buffer_m (data_v v)"
  from inv have n: "size_v v \<le> length ?buf" and lv: "\<And>k. k < size_v v \<Longrightarrow> ?buf ! k \<noteq> None"
    by (auto simp: Vector_inv_iff)
  show ?thesis
  proof (cases "construct E args ?buf")
    case (Inl e)
    with al f show ?thesis by (simp add: Emplace_realloc_def grown_def [symmetric])
  next
    case (Inr x)
    note c = this
    from i gt nd have ix: "i < length (buffer_m nd)" by simp
    let ?d0 = "(buffer_m nd)[i := Some x]"
    let ?r1 = "CopyOrMoveNElem E ?buf 0 i ?d0 0"
    have "\<forall>k<i. live ?buf (0 + k) \<noteq> None" using inv i by (simp add: inv_live)
    moreover from ix have "0 + i \<le> length ?d0" by simp
    ultimately have d1: "fst ?r1 \<noteq> Some UndefinedBehaviour" by (rule CopyOrMove_defined)
    show ?thesis
    proof (cases "fst ?r1")
      case (Some e1)
      from Emplace_realloc_prefix_failure [OF al c ix Some] f d1 Some show ?thesis by simp
    next
      case None
      let ?r2 = "CopyOrMoveNElem E (fst (snd ?r1)) i (size_v v - i) (snd (snd ?r1)) (i + 1)"
      have "\<forall>k<size_v v - i. live (fst (snd ?r1)) (i + k) \<noteq> None"
      proof (intro allI impI)
        fix k assume "k < size_v v - i"
        with n lv [of "i + k"] have "i + k < length ?buf" "?buf ! (i + k) \<noteq> None" by auto
        with CopyOrMove_src_live [of "i + k" ?buf E 0 i ?d0 0]
        show "live (fst (snd ?r1)) (i + k) \<noteq> None" by (simp add: live_def)
      qed
      moreover from i gt nd have "i + 1 + (size_v v - i) \<le> length (snd (snd ?r1))" by simp
      ultimately have d2: "fst ?r2 \<noteq> Some UndefinedBehaviour" by (rule CopyOrMove_defined)
      show ?thesis
      proof (cases "fst ?r2")
        case (Some e2)
        from Emplace_realloc_suffix_failure [OF al c ix None refl Some] f d2 Some show ?thesis
          by simp
      next
        case n2: None
        with al c ix None f show ?thesis
          by (simp add: Emplace_realloc_def grown_def [symmetric] case_prod_unfold)
      qed
    qed
  qed
qed

lemma Emplace_realloc_branch:
  assumes "i \<le> size_v v" and "\<not> size_v v + 1 \<le> capacity_m (data_v v)"
  shows "Emplace E i args v =
           (case fst (Emplace_realloc E i args v) of
              Some e \<Rightarrow> (Inl e, fst (snd (Emplace_realloc E i args v)))
            | None \<Rightarrow> (Inr i, (fst (snd (Emplace_realloc E i args v)))
                          \<lparr>size_v := size_v (fst (snd (Emplace_realloc E i args v))) + 1\<rparr>))"
  using assms
  by (simp add: Emplace_def Let_def case_prod_unfold split: option.splits)

lemma Emplace_realloc_construct_failure:
  assumes "RawMemory_sized E (grown v) = Inr nd"
    and "construct E args (buffer_m (data_v v)) = Inl e"
  shows "Emplace_realloc E i args v = (Some e, v, Some nd, [])"
  using assms by (simp add: Emplace_realloc_def grown_def [symmetric])

section \<open>PopBack\<close>

text \<open>
  Claim C9. \<^verbatim>\<open>PopBack\<close> on an empty vector changes nothing and is not an error
  (the operation has no error result at all). On a non-empty vector it destroys
  the object in the last live slot and decrements the length by one; the
  capacity stays, the invariant is kept and the elements are the former ones
  without the last.
\<close>

theorem PopBack_spec:
  "(size_v v = 0 \<longrightarrow> PopBack v = v) \<and>
   (0 < size_v v \<longrightarrow>
      size_v (PopBack v) = size_v v - 1 \<and>
      capacity_m (data_v (PopBack v)) = capacity_m (data_v v) \<and>
      buffer_m (data_v (PopBack v)) = (buffer_m (data_v v))[size_v v - 1 := None] \<and>
      (Vector_inv v \<longrightarrow> Vector_inv (PopBack v) \<and> elems (PopBack v) = butlast (elems v)))"
proof -
  have "elems (PopBack v) = butlast (elems v)" if "0 < size_v v" "Vector_inv v"
  proof -
    from that have le: "size_v v \<le> length (buffer_m (data_v v))"
      by (simp add: Vector_inv_iff)
    have "take (size_v v - 1) ((buffer_m (data_v v))[size_v v - 1 := None])
            = take (size_v v - 1) (buffer_m (data_v v))"
      by simp
    moreover have "butlast (take (size_v v) (buffer_m (data_v v)))
            = take (size_v v - 1) (buffer_m (data_v v))"
      using le by (simp add: butlast_take)
    moreover have "butlast (map the (take (size_v v) (buffer_m (data_v v))))
            = map the (butlast (take (size_v v) (buffer_m (data_v v))))"
      by (simp only: map_butlast)
    ultimately show ?thesis
      using that by (simp add: PopBack_def Destroy_def elems_def)
  qed
  moreover have "Vector_inv (PopBack v)" if "0 < size_v v" "Vector_inv v"
    using that by (auto simp: PopBack_def Destroy_def Vector_inv_iff)
  ultimately show ?thesis
    by (simp add: PopBack_def Destroy_def)
qed

theorem PopBack_spec_witness:
  "PopBack (mk_vector ([]::nat list) 2) = mk_vector [] 2 \<and>
   size_v (PopBack (mk_vector [1, 2, 3::nat] 1)) = 2 \<and>
   buffer_m (data_v (PopBack (mk_vector [1, 2, 3::nat] 1))) = [Some 1, Some 2, None, None] \<and>
   elems (PopBack (mk_vector [1, 2, 3::nat] 1)) = [1, 2]"
  using PopBack_spec [of "mk_vector ([]::nat list) 2"] PopBack_spec [of "mk_vector [1, 2, 3::nat] 1"]
  by (simp add: mk_vector_def Vector_inv_def elems_def)

section \<open>Resize to the current size\<close>

text \<open>
  Claim C10. \<^verbatim>\<open>Resize(n)\<close> with \<open>n\<close> equal to the current size returns at once:
  it returns normally and the vector it leaves is the vector it found, slot by
  slot, with the same size and capacity. This holds for every element type and
  every allocator, since neither is consulted.
\<close>

theorem Resize_same_size: "Resize E (size_v v) v = (None, v)"
  by (simp add: Resize_def)

section \<open>Facts about the example element types and vectors\<close>

lemma plain_nat_simps [simp]:
  "value_init plain_nat = Some 0" "copy_ctor plain_nat x = Some x"
  "move_ctor plain_nat x = Some (x, 0)" "copy_assign plain_nat d s = Some s"
  "move_assign plain_nat d s = Some (s, 0)" "is_nothrow_move_constructible plain_nat"
  "is_copy_constructible plain_nat" "operator_new plain_nat n = Room"
  by (simp_all add: plain_nat_def)

lemma plain_nat_value_semantics: "value_semantics plain_nat"
  by (simp add: value_semantics_def)

lemma plain_nat_nothrow: "nothrow plain_nat"
  by (simp add: nothrow_def)

lemma Vector_inv_mk_vector: "Vector_inv (mk_vector xs spare)"
  by (simp add: Vector_inv_def mk_vector_def list_all_iff)

lemma elems_mk_vector: "elems (mk_vector xs spare) = xs"
  by (simp add: elems_def mk_vector_def comp_def)

section \<open>Erase\<close>







section \<open>Positional insertion\<close>

lemma construct_Outside:
  "construct E (ConstRef (Outside y)) buf = Inr x \<Longrightarrow> value_semantics E \<Longrightarrow> x = y"
  unfolding value_semantics_def by (auto split: option.splits)

lemma construct_Rvalue:
  "construct E (Rvalue y) buf = Inr x \<Longrightarrow> value_semantics E \<Longrightarrow> x = y"
  unfolding value_semantics_def by (auto split: option.splits)

text \<open>
  Claim C3. On a vector of length \<open>N\<close> that satisfies the invariant, for a
  position \<open>i \<le> N\<close> and an element type with value semantics, an \<^verbatim>\<open>Emplace\<close> that
  returns leaves a vector of length \<open>N + 1\<close> whose elements are the former ones
  below \<open>i\<close>, then the element \<open>x\<close> that the constructor built from the arguments,
  then the former elements from \<open>i\<close> on, in their order; it returns position
  \<open>i\<close> and keeps the invariant. \<^verbatim>\<open>Insert\<close> is \<^verbatim>\<open>Emplace\<close> with the value as the only
  argument, so for a value \<open>y\<close> outside the vector (by \<^verbatim>\<open>const T&\<close> or by \<^verbatim>\<open>T&&\<close>) the
  inserted element is \<open>y\<close>. When nothing throws and the arguments are usable,
  \<^verbatim>\<open>Emplace\<close> does return.
\<close>

theorem Emplace_spec:
  assumes "Vector_inv v" and "value_semantics E" and "i \<le> size_v v"
  shows "(\<forall>r v'. Emplace E i args v = (Inr r, v') \<longrightarrow>
            (\<exists>x. construct E args (buffer_m (data_v v)) = Inr x \<and>
                 elems v' = take i (elems v) @ [x] @ drop i (elems v)) \<and>
            size_v v' = size_v v + 1 \<and> r = i \<and> Vector_inv v') \<and>
         (\<forall>y r v'. Insert_copy E i (Outside y) v = (Inr r, v') \<longrightarrow>
            elems v' = take i (elems v) @ [y] @ drop i (elems v) \<and> r = i) \<and>
         (\<forall>y r v'. Insert_move E i y v = (Inr r, v') \<longrightarrow>
            elems v' = take i (elems v) @ [y] @ drop i (elems v) \<and> r = i) \<and>
         (nothrow E \<and> args_ok args v \<longrightarrow> fst (Emplace E i args v) = Inr i)"
proof (intro conjI allI impI)
  fix r v' assume e: "Emplace E i args v = (Inr r, v')"
  from Emplace_elems [OF assms(1,2) e]
  show "\<exists>x. construct E args (buffer_m (data_v v)) = Inr x \<and>
          elems v' = take i (elems v) @ [x] @ drop i (elems v)" .
  from Emplace_slots [OF assms(1,2) e] show "size_v v' = size_v v + 1" "r = i" by auto
  from Emplace_success_inv [OF assms(1,2) e] show "Vector_inv v'" .
next
  fix y r v' assume "Insert_copy E i (Outside y) v = (Inr r, v')"
  then have e: "Emplace E i (ConstRef (Outside y)) v = (Inr r, v')" by (simp add: Insert_copy_def)
  from Emplace_elems [OF assms(1,2) e] construct_Outside [OF _ assms(2)]
  show "elems v' = take i (elems v) @ [y] @ drop i (elems v)" by blast
  from Emplace_slots [OF assms(1,2) e] show "r = i" by auto
next
  fix y r v' assume "Insert_move E i y v = (Inr r, v')"
  then have e: "Emplace E i (Rvalue y) v = (Inr r, v')" by (simp add: Insert_move_def)
  from Emplace_elems [OF assms(1,2) e] construct_Rvalue [OF _ assms(2)]
  show "elems v' = take i (elems v) @ [y] @ drop i (elems v)" by blast
  from Emplace_slots [OF assms(1,2) e] show "r = i" by auto
next
  assume "nothrow E \<and> args_ok args v"
  with Emplace_total [OF _ assms(1,3)] show "fst (Emplace E i args v) = Inr i" by blast
qed

theorem Emplace_spec_witness:
  "Vector_inv (mk_vector [1, 2, 3, 4::nat] 0) \<and> value_semantics plain_nat \<and>
   2 \<le> size_v (mk_vector [1, 2, 3, 4::nat] 0) \<and> nothrow plain_nat \<and>
   args_ok (Args (Some 99)) (mk_vector [1, 2, 3, 4::nat] 0) \<and>
   fst (Emplace plain_nat 2 (Args (Some 99)) (mk_vector [1, 2, 3, 4] 0)) = Inr 2 \<and>
   elems (snd (Emplace plain_nat 2 (Args (Some 99)) (mk_vector [1, 2, 3, 4] 0))) = [1, 2, 99, 3, 4] \<and>
   elems (snd (Insert_copy plain_nat 2 (Outside 99) (mk_vector [1, 2, 3, 4] 0))) = [1, 2, 99, 3, 4] \<and>
   elems (snd (Insert_move plain_nat 2 99 (mk_vector [1, 2, 3, 4] 0))) = [1, 2, 99, 3, 4]"
proof -
  let ?v = "mk_vector [1, 2, 3, 4::nat] 0"
  have i: "2 \<le> size_v ?v" by (simp add: mk_vector_def)
  have a: "args_ok (Args (Some 99)) ?v" by (simp add: args_ok_def)
  note s = Emplace_spec [OF Vector_inv_mk_vector plain_nat_value_semantics i,
      where args = "Args (Some 99)"]
  have "fst (Emplace plain_nat 2 (Args (Some 99)) ?v) = Inr 2" by code_simp
  then have e1: "Emplace plain_nat 2 (Args (Some 99)) ?v
      = (Inr 2, snd (Emplace plain_nat 2 (Args (Some 99)) ?v))"
    by (metis prod.collapse)
  have "fst (Insert_copy plain_nat 2 (Outside 99) ?v) = Inr 2" by code_simp
  then have e2: "Insert_copy plain_nat 2 (Outside 99) ?v
      = (Inr 2, snd (Insert_copy plain_nat 2 (Outside 99) ?v))"
    by (metis prod.collapse)
  have "fst (Insert_move plain_nat 2 99 ?v) = Inr 2" by code_simp
  then have e3: "Insert_move plain_nat 2 99 ?v = (Inr 2, snd (Insert_move plain_nat 2 99 ?v))"
    by (metis prod.collapse)
  from e1 s have "elems (snd (Emplace plain_nat 2 (Args (Some 99)) ?v))
      = take 2 (elems ?v) @ [99] @ drop 2 (elems ?v)"
    by fastforce
  moreover from e2 s have "elems (snd (Insert_copy plain_nat 2 (Outside 99) ?v))
      = take 2 (elems ?v) @ [99] @ drop 2 (elems ?v)"
    by blast
  moreover from e3 s have "elems (snd (Insert_move plain_nat 2 99 ?v))
      = take 2 (elems ?v) @ [99] @ drop 2 (elems ?v)"
    by blast
  moreover from s a plain_nat_nothrow
  have "fst (Emplace plain_nat 2 (Args (Some 99)) ?v) = Inr 2" by blast
  ultimately show ?thesis
    using i a by (simp add: Vector_inv_mk_vector plain_nat_value_semantics plain_nat_nothrow
        elems_mk_vector)
qed

section \<open>Inserting a copy of an own element\<close>

text \<open>
  Claim C2. On a vector that satisfies the invariant, for an element type with
  value semantics, a returning \<^verbatim>\<open>Insert(pos, value)\<close> whose \<^verbatim>\<open>value\<close> is a reference to
  the vector's own element \<open>j\<close> inserts the value that element \<open>j\<close> had when the
  call began, whether \<open>j\<close> lies before the position or in the shifted range. On
  the in-place branch the constructor reads slot \<open>j\<close> of the block as the call
  found it: \<open>Emplace_shift\<close> builds the value before it relocates or shifts
  anything. When nothing throws the call returns. For the container
  \<open>[1, 2, 3]\<close> with a spare slot, inserting a copy of element \<open>0\<close> at position
  \<open>1\<close> gives \<open>[1, 1, 2, 3]\<close>.
\<close>

theorem Insert_own_element:
  assumes "Vector_inv v" and "value_semantics E" and "i \<le> size_v v" and "j < size_v v"
  shows "(\<forall>r v'. Insert_copy E i (Own j) v = (Inr r, v') \<longrightarrow>
            elems v' = take i (elems v) @ [elems v ! j] @ drop i (elems v) \<and> r = i) \<and>
         (\<forall>v1. size_v v + 1 \<le> capacity_m (data_v v) \<and> i < size_v v \<and>
               Emplace_shift E i (ConstRef (Own j)) v = (None, v1) \<longrightarrow>
            construct E (ConstRef (Own j)) (buffer_m (data_v v)) = Inr (elems v ! j)) \<and>
         (nothrow E \<longrightarrow> fst (Insert_copy E i (Own j) v) = Inr i)"
proof (intro conjI allI impI)
  fix r v' assume "Insert_copy E i (Own j) v = (Inr r, v')"
  then have e: "Emplace E i (ConstRef (Own j)) v = (Inr r, v')" by (simp add: Insert_copy_def)
  from Emplace_elems [OF assms(1,2) e] obtain x where
    c: "construct E (ConstRef (Own j)) (buffer_m (data_v v)) = Inr x"
    and el: "elems v' = take i (elems v) @ [x] @ drop i (elems v)"
    by blast
  from construct_Own [OF c assms(2)] elems_nth [OF assms(1,4)] have "x = elems v ! j" by simp
  with el show "elems v' = take i (elems v) @ [elems v ! j] @ drop i (elems v)" by simp
  from Emplace_slots [OF assms(1,2) e] show "r = i" by auto
next
  fix v1
  assume a: "size_v v + 1 \<le> capacity_m (data_v v) \<and> i < size_v v \<and>
      Emplace_shift E i (ConstRef (Own j)) v = (None, v1)"
  then obtain x where c: "construct E (ConstRef (Own j)) (buffer_m (data_v v)) = Inr x"
    by (auto elim: Emplace_shift_D)
  from construct_Own [OF c assms(2)] elems_nth [OF assms(1,4)] have "x = elems v ! j" by simp
  with c show "construct E (ConstRef (Own j)) (buffer_m (data_v v)) = Inr (elems v ! j)" by simp
next
  assume "nothrow E"
  moreover from assms(4) have "args_ok (ConstRef (Own j)) v" by (simp add: args_ok_def)
  ultimately show "fst (Insert_copy E i (Own j) v) = Inr i"
    using Emplace_total [OF _ assms(1,3)] by (simp add: Insert_copy_def)
qed

theorem Insert_own_element_witness:
  "Vector_inv (mk_vector [1, 2, 3::nat] 1) \<and> value_semantics plain_nat \<and> nothrow plain_nat \<and>
   1 \<le> size_v (mk_vector [1, 2, 3::nat] 1) \<and> 0 < size_v (mk_vector [1, 2, 3::nat] 1) \<and>
   size_v (mk_vector [1, 2, 3::nat] 1) + 1 \<le> capacity_m (data_v (mk_vector [1, 2, 3::nat] 1)) \<and>
   fst (Insert_copy plain_nat 1 (Own 0) (mk_vector [1, 2, 3] 1)) = Inr 1 \<and>
   elems (snd (Insert_copy plain_nat 1 (Own 0) (mk_vector [1, 2, 3] 1))) = [1, 1, 2, 3] \<and>
   fst (Emplace_shift plain_nat 1 (ConstRef (Own 0)) (mk_vector [1, 2, 3] 1)) = None \<and>
   construct plain_nat (ConstRef (Own 0)) (buffer_m (data_v (mk_vector [1, 2, 3] 1))) = Inr 1"
proof -
  let ?v = "mk_vector [1, 2, 3::nat] 1"
  have i: "1 \<le> size_v ?v" and j: "0 < size_v ?v"
    and c: "size_v ?v + 1 \<le> capacity_m (data_v ?v)" and lt: "1 < size_v ?v"
    by (simp_all add: mk_vector_def)
  note s = Insert_own_element [OF Vector_inv_mk_vector plain_nat_value_semantics i j]
  from s plain_nat_nothrow have f: "fst (Insert_copy plain_nat 1 (Own 0) ?v) = Inr 1" by blast
  then have "Insert_copy plain_nat 1 (Own 0) ?v = (Inr 1, snd (Insert_copy plain_nat 1 (Own 0) ?v))"
    by (metis prod.collapse)
  with s have e: "elems (snd (Insert_copy plain_nat 1 (Own 0) ?v))
      = take 1 (elems ?v) @ [elems ?v ! 0] @ drop 1 (elems ?v)"
    by blast
  have sh: "fst (Emplace_shift plain_nat 1 (ConstRef (Own 0)) ?v) = None" by code_simp
  then have "Emplace_shift plain_nat 1 (ConstRef (Own 0)) ?v
      = (None, snd (Emplace_shift plain_nat 1 (ConstRef (Own 0)) ?v))"
    by (metis prod.collapse)
  with s c lt have "construct plain_nat (ConstRef (Own 0)) (buffer_m (data_v ?v)) = Inr (elems ?v ! 0)"
    by blast
  with f e sh i j c show ?thesis
    by (simp add: Vector_inv_mk_vector plain_nat_value_semantics plain_nat_nothrow elems_mk_vector)
qed

section \<open>The strong guarantee of the reallocating branch\<close>

text \<open>
  Claim C1, as stated, says that the vector is unchanged whenever a constructor,
  a copy constructor or a move constructor throws in the reallocating branch. For
  a type that cannot be copied and whose move constructor may throw,
  \<^verbatim>\<open>CopyOrMoveNElem\<close> moves: the elements relocated before the throw are left in
  their moved-from state. With elements \<open>[1, 2]\<close>, no spare slot and the type
  \<open>move_only_nat\<close>, appending \<open>9\<close> moves element \<open>0\<close>, throws on element \<open>1\<close> and
  leaves the vector holding \<open>[0, 2]\<close>.
\<close>

theorem Emplace_realloc_move_only_counterexample:
  "Vector_inv (mk_vector [1, 2::nat] 0) \<and> 2 \<le> size_v (mk_vector [1, 2::nat] 0) \<and>
   \<not> size_v (mk_vector [1, 2::nat] 0) + 1 \<le> capacity_m (data_v (mk_vector [1, 2::nat] 0)) \<and>
   fst (Emplace move_only_nat 2 (Args (Some 9)) (mk_vector [1, 2] 0)) = Inl ElemThrow \<and>
   elems (mk_vector [1, 2::nat] 0) = [1, 2] \<and>
   elems (snd (Emplace move_only_nat 2 (Args (Some 9)) (mk_vector [1, 2] 0))) = [0, 2]"
proof -
  have "fst (Emplace move_only_nat 2 (Args (Some 9)) (mk_vector [1, 2] 0)) = Inl ElemThrow"
    by code_simp
  moreover have "elems (snd (Emplace move_only_nat 2 (Args (Some 9)) (mk_vector [1, 2] 0))) = [0, 2]"
    by code_simp
  ultimately show ?thesis
    by (simp add: Vector_inv_mk_vector elems_mk_vector) (simp add: mk_vector_def)
qed

text \<open>
  Claim C1, amended: the claim as stated, for the element types that are copy
  constructible or whose move constructor does not throw. Let the vector satisfy
  the invariant, the position be valid and the capacity be used up, so that
  \<^verbatim>\<open>Emplace\<close> takes the reallocating branch, and let a \<^verbatim>\<open>noexcept\<close> move
  constructor not throw. Then
  \<^item> an \<^verbatim>\<open>Emplace\<close> that leaves with an exception, of a constructor or
    \<^verbatim>\<open>std::bad_alloc\<close>, passes on the error of the reallocating branch and leaves
    the vector exactly as it found it, and the new block that is released holds
    no live object;
  \<^item> when the constructor of the new element throws, no destructor is run;
  \<^item> when relocating the prefix fails, the new block, which was raw, holds the
    new element and nothing else as the handler finds it, and the handler runs
    one destructor, on the new element;
  \<^item> when relocating the suffix fails, the live objects of the new block as the
    handler finds it are the relocated prefix and the new element, in the slots
    \<open>0, \<dots>, i\<close>, and the handler runs the destructor on exactly these slots;
  \<^item> the old block is handed to \<^verbatim>\<open>new_data_\<close>, whose destructor releases it, only
    when the branch returns, with all its objects destroyed;
  \<^item> when the byte count of the new block did not wrap and the arguments refer
    to live elements, the branch has no undefined behaviour: it returns or
    leaves with an exception; and when the byte count did not wrap, an \<^verbatim>\<open>Emplace\<close>
    that leaves with any error at all leaves the vector exactly as it found it.
\<close>

theorem Emplace_realloc_strong_guarantee:
  assumes "Vector_inv v" and "i \<le> size_v v" and "\<not> size_v v + 1 \<le> capacity_m (data_v v)"
    and "is_nothrow_move_constructible E \<longrightarrow> (\<forall>x. move_ctor E x \<noteq> None)"
    and "is_copy_constructible E \<or> (\<forall>x. move_ctor E x \<noteq> None)"
  shows "(\<forall>e v'. Emplace E i args v = (Inl e, v') \<and> e \<noteq> UndefinedBehaviour \<longrightarrow>
            v' = v \<and>
            (\<exists>m log. Emplace_realloc E i args v = (Some e, v, m, log) \<and>
                 (\<forall>nd. m = Some nd \<longrightarrow>
                    capacity_m nd = grown v \<and> list_all (\<lambda>s. s = None) (buffer_m nd)))) \<and>
         (\<forall>nd e. RawMemory_sized E (grown v) = Inr nd \<and>
            construct E args (buffer_m (data_v v)) = Inl e \<longrightarrow>
            Emplace_realloc E i args v = (Some e, v, Some nd, []) \<and>
            fst (Emplace E i args v) = Inl e) \<and>
         (\<forall>nd x e. RawMemory_sized E (grown v) = Inr nd \<and>
            construct E args (buffer_m (data_v v)) = Inr x \<and> i < length (buffer_m nd) \<and>
            fst (CopyOrMoveNElem E (buffer_m (data_v v)) 0 i ((buffer_m nd)[i := Some x]) 0)
              = Some e \<longrightarrow>
            list_all (\<lambda>s. s = None) (buffer_m nd) \<and>
            snd (snd (CopyOrMoveNElem E (buffer_m (data_v v)) 0 i ((buffer_m nd)[i := Some x]) 0))
              = (buffer_m nd)[i := Some x] \<and>
            Emplace_realloc E i args v =
              (Some e,
               set_buffer v (fst (snd (CopyOrMoveNElem E (buffer_m (data_v v)) 0 i
                                         ((buffer_m nd)[i := Some x]) 0))),
               Some nd, [i]) \<and>
            fst (Emplace E i args v) = Inl e) \<and>
         (\<forall>nd x r1 e. RawMemory_sized E (grown v) = Inr nd \<and>
            construct E args (buffer_m (data_v v)) = Inr x \<and> i < length (buffer_m nd) \<and>
            r1 = CopyOrMoveNElem E (buffer_m (data_v v)) 0 i ((buffer_m nd)[i := Some x]) 0 \<and>
            fst r1 = None \<and>
            fst (CopyOrMoveNElem E (fst (snd r1)) i (size_v v - i) (snd (snd r1)) (i + 1))
              = Some e \<longrightarrow>
            (\<forall>k<length (buffer_m nd).
               (snd (snd (CopyOrMoveNElem E (fst (snd r1)) i (size_v v - i) (snd (snd r1)) (i + 1)))
                  ! k \<noteq> None) = (k \<le> i)) \<and>
            Emplace_realloc E i args v =
              (Some e,
               set_buffer v (fst (snd (CopyOrMoveNElem E (fst (snd r1)) i (size_v v - i)
                                         (snd (snd r1)) (i + 1)))),
               Some nd, [0..<i + 1]) \<and>
            fst (Emplace E i args v) = Inl e) \<and>
         (\<forall>v' m. Emplace_realloc E i args v = (None, v', m) \<longrightarrow>
            (\<exists>od. m = (Some od, []) \<and> capacity_m od = capacity_m (data_v v) \<and>
                  buffer_m od = replicate (capacity_m (data_v v)) None)) \<and>
         ((\<forall>k. operator_new E (grown v) \<noteq> Short k) \<and> args_ok args v \<longrightarrow>
            fst (Emplace E i args v) \<noteq> Inl UndefinedBehaviour) \<and>
         ((\<forall>k. operator_new E (grown v) \<noteq> Short k) \<longrightarrow>
            (\<forall>e v'. Emplace E i args v = (Inl e, v') \<longrightarrow> v' = v))"
proof -
  note br = Emplace_realloc_branch [OF assms(2,3), of E args]
  from assms(4,5) have safe: "use_move E \<longrightarrow> (\<forall>x. move_ctor E x \<noteq> None)"
    by (auto simp: use_move_def)
  have c1: "v' = v \<and>
            (\<exists>m log. Emplace_realloc E i args v = (Some e, v, m, log) \<and>
                 (\<forall>nd. m = Some nd \<longrightarrow>
                    capacity_m nd = grown v \<and> list_all (\<lambda>s. s = None) (buffer_m nd)))"
    if a: "Emplace E i args v = (Inl e, v')" and ne: "e \<noteq> UndefinedBehaviour" for e v'
  proof -
    obtain r v1 m log where r: "Emplace_realloc E i args v = (r, v1, m, log)"
      by (cases "Emplace_realloc E i args v") auto
    with a br have "r = Some e" "v1 = v'" by (auto split: option.splits)
    with r have f: "Emplace_realloc E i args v = (Some e, v', m, log)" by simp
    from Emplace_realloc_strong [OF assms(1,2) safe f ne] f show ?thesis by auto
  qed
  have c2: "Emplace_realloc E i args v = (Some e, v, Some nd, []) \<and>
            fst (Emplace E i args v) = Inl e"
    if "RawMemory_sized E (grown v) = Inr nd" "construct E args (buffer_m (data_v v)) = Inl e"
    for nd e
    using Emplace_realloc_construct_failure [OF that, of i] br by simp
  have c3: "list_all (\<lambda>s. s = None) (buffer_m nd) \<and>
            snd (snd (CopyOrMoveNElem E (buffer_m (data_v v)) 0 i ((buffer_m nd)[i := Some x]) 0))
              = (buffer_m nd)[i := Some x] \<and>
            Emplace_realloc E i args v =
              (Some e,
               set_buffer v (fst (snd (CopyOrMoveNElem E (buffer_m (data_v v)) 0 i
                                         ((buffer_m nd)[i := Some x]) 0))),
               Some nd, [i]) \<and>
            fst (Emplace E i args v) = Inl e"
    if "RawMemory_sized E (grown v) = Inr nd" "construct E args (buffer_m (data_v v)) = Inr x"
      "i < length (buffer_m nd)"
      "fst (CopyOrMoveNElem E (buffer_m (data_v v)) 0 i ((buffer_m nd)[i := Some x]) 0) = Some e"
    for nd x e
  proof -
    from RawMemory_sized_D [OF that(1)] have "list_all (\<lambda>s. s = None) (buffer_m nd)"
      by (auto simp: list_all_length)
    with Emplace_realloc_prefix_failure [OF that] br show ?thesis by simp
  qed
  have c4: "(\<forall>k<length (buffer_m nd).
               (snd (snd (CopyOrMoveNElem E (fst (snd r1)) i (size_v v - i) (snd (snd r1)) (i + 1)))
                  ! k \<noteq> None) = (k \<le> i)) \<and>
            Emplace_realloc E i args v =
              (Some e,
               set_buffer v (fst (snd (CopyOrMoveNElem E (fst (snd r1)) i (size_v v - i)
                                         (snd (snd r1)) (i + 1)))),
               Some nd, [0..<i + 1]) \<and>
            fst (Emplace E i args v) = Inl e"
    if "RawMemory_sized E (grown v) = Inr nd" "construct E args (buffer_m (data_v v)) = Inr x"
      "i < length (buffer_m nd)"
      "r1 = CopyOrMoveNElem E (buffer_m (data_v v)) 0 i ((buffer_m nd)[i := Some x]) 0"
      "fst r1 = None"
      "fst (CopyOrMoveNElem E (fst (snd r1)) i (size_v v - i) (snd (snd r1)) (i + 1)) = Some e"
    for nd x r1 e
  proof -
    from that(4,5)
    have "fst (CopyOrMoveNElem E (buffer_m (data_v v)) 0 i ((buffer_m nd)[i := Some x]) 0) = None"
      by simp
    from Emplace_realloc_suffix_failure [OF that(1,2,3) this that(4,6)] br show ?thesis
      by (simp del: upt_Suc)
  qed
  have c5: "\<exists>od. m = (Some od, []) \<and> capacity_m od = capacity_m (data_v v) \<and>
                  buffer_m od = replicate (capacity_m (data_v v)) None"
    if "Emplace_realloc E i args v = (None, v', m)" for v' m
    using Emplace_realloc_released [OF assms(1,3) that] .
  have c6: "fst (Emplace E i args v) \<noteq> Inl UndefinedBehaviour"
    if "\<forall>k. operator_new E (grown v) \<noteq> Short k" "args_ok args v"
    using Emplace_realloc_defined [OF assms(1,2) that(2,1)] br
    by (auto split: option.splits)
  have c7: "v' = v"
    if room: "\<forall>k. operator_new E (grown v) \<noteq> Short k" and a: "Emplace E i args v = (Inl e, v')"
    for e v'
  proof (cases "e = UndefinedBehaviour")
    case False
    with c1 [OF a] show ?thesis by simp
  next
    case True
    obtain r v1 m log where r: "Emplace_realloc E i args v = (r, v1, m, log)"
      by (cases "Emplace_realloc E i args v") auto
    with a br have "r = Some e" "v1 = v'" by (auto split: option.splits)
    with r True have "Emplace_realloc E i args v = (Some UndefinedBehaviour, v', m, log)" by simp
    from Emplace_realloc_undefined [OF assms(1,2) room this] show ?thesis .
  qed
  from c1 c2 c3 c4 c5 c6 c7 show ?thesis by blast
qed

theorem Emplace_realloc_strong_guarantee_witness:
  "Vector_inv (mk_vector [1, 2, 3::nat] 0) \<and> 1 \<le> size_v (mk_vector [1, 2, 3::nat] 0) \<and>
   2 \<le> size_v (mk_vector [1, 2, 3::nat] 0) \<and>
   \<not> size_v (mk_vector [1, 2, 3::nat] 0) + 1 \<le> capacity_m (data_v (mk_vector [1, 2, 3::nat] 0)) \<and>
   \<not> is_nothrow_move_constructible throwing_copy_nat \<and> is_copy_constructible throwing_copy_nat \<and>
   Emplace throwing_copy_nat 1 (Args (Some 9)) (mk_vector [1, 2, 3] 0)
     = (Inl ElemThrow, mk_vector [1, 2, 3] 0) \<and>
   Emplace_realloc throwing_copy_nat 1 (Args (Some 9)) (mk_vector [1, 2, 3] 0)
     = (Some ElemThrow, mk_vector [1, 2, 3] 0,
        Some \<lparr>buffer_m = replicate 6 None, capacity_m = 6\<rparr>, [0, 1]) \<and>
   Emplace throwing_copy_nat 2 (Args (Some 9)) (mk_vector [1, 2, 3] 0)
     = (Inl ElemThrow, mk_vector [1, 2, 3] 0) \<and>
   Emplace_realloc throwing_copy_nat 2 (Args (Some 9)) (mk_vector [1, 2, 3] 0)
     = (Some ElemThrow, mk_vector [1, 2, 3] 0,
        Some \<lparr>buffer_m = replicate 6 None, capacity_m = 6\<rparr>, [2]) \<and>
   Emplace_realloc throwing_copy_nat 1 (Args None) (mk_vector [1, 2, 3] 0)
     = (Some ElemThrow, mk_vector [1, 2, 3] 0,
        Some \<lparr>buffer_m = replicate 6 None, capacity_m = 6\<rparr>, []) \<and>
   snd (snd (Emplace_realloc plain_nat 1 (Args (Some 9)) (mk_vector [1, 2, 3] 0)))
     = (Some \<lparr>buffer_m = [None, None, None], capacity_m = 3\<rparr>, [])"
proof -
  let ?v = "mk_vector [1, 2, 3::nat] 0"
  let ?E = throwing_copy_nat
  let ?nd = "\<lparr>buffer_m = replicate 6 (None :: nat option), capacity_m = 6\<rparr>"
  have i: "1 \<le> size_v ?v" and i2: "2 \<le> size_v ?v"
    and c: "\<not> size_v ?v + 1 \<le> capacity_m (data_v ?v)"
    by (simp_all add: mk_vector_def)
  have t1: "is_nothrow_move_constructible ?E \<longrightarrow> (\<forall>x. move_ctor ?E x \<noteq> None)"
    and t2: "is_copy_constructible ?E \<or> (\<forall>x. move_ctor ?E x \<noteq> None)"
    and t3: "\<not> is_nothrow_move_constructible ?E" "is_copy_constructible ?E"
    by (simp_all add: throwing_copy_nat_def)
  have p1: "is_nothrow_move_constructible plain_nat \<longrightarrow> (\<forall>x. move_ctor plain_nat x \<noteq> None)"
    and p2: "is_copy_constructible plain_nat \<or> (\<forall>x. move_ctor plain_nat x \<noteq> None)"
    by simp_all
  note s1 = Emplace_realloc_strong_guarantee [OF Vector_inv_mk_vector i c t1 t2,
      where args = "Args (Some 9)"]
  note s2 = Emplace_realloc_strong_guarantee [OF Vector_inv_mk_vector i2 c t1 t2,
      where args = "Args (Some 9)"]
  note s3 = Emplace_realloc_strong_guarantee [OF Vector_inv_mk_vector i c p1 p2,
      where args = "Args (Some 9)"]
  have al: "RawMemory_sized ?E (grown ?v) = Inr ?nd" by code_simp
  have cx: "construct ?E (Args (Some 9)) (buffer_m (data_v ?v)) = Inr 9" by simp
  have l1: "1 < length (buffer_m ?nd)" and l2: "2 < length (buffer_m ?nd)" by simp_all
  txt \<open>Position 1: the prefix is relocated, the suffix fails on the element \<open>2\<close>.\<close>
  have "fst (Emplace ?E 1 (Args (Some 9)) ?v) = Inl ElemThrow" by code_simp
  then have e: "Emplace ?E 1 (Args (Some 9)) ?v = (Inl ElemThrow, snd (Emplace ?E 1 (Args (Some 9)) ?v))"
    by (metis prod.collapse)
  with s1 [THEN conjunct1, rule_format, of ElemThrow "snd (Emplace ?E 1 (Args (Some 9)) ?v)"]
  have e1: "snd (Emplace ?E 1 (Args (Some 9)) ?v) = ?v" by simp
  have ok1: "fst (CopyOrMoveNElem ?E (buffer_m (data_v ?v)) 0 1 ((buffer_m ?nd)[1 := Some 9]) 0) = None"
    by code_simp
  have f2: "fst (CopyOrMoveNElem ?E
        (fst (snd (CopyOrMoveNElem ?E (buffer_m (data_v ?v)) 0 1 ((buffer_m ?nd)[1 := Some 9]) 0)))
        1 (size_v ?v - 1)
        (snd (snd (CopyOrMoveNElem ?E (buffer_m (data_v ?v)) 0 1 ((buffer_m ?nd)[1 := Some 9]) 0)))
        (1 + 1)) = Some ElemThrow"
    by code_simp
  from s1 [THEN conjunct2, THEN conjunct2, THEN conjunct2, THEN conjunct1, rule_format,
      of ?nd 9 "CopyOrMoveNElem ?E (buffer_m (data_v ?v)) 0 1 ((buffer_m ?nd)[1 := Some 9]) 0"
        ElemThrow] al cx l1 ok1 f2
  have "snd (snd (snd (Emplace_realloc ?E 1 (Args (Some 9)) ?v))) = [0..<1 + 1]"
    by (simp del: upt_Suc replicate.simps)
  then have lg1: "snd (snd (snd (Emplace_realloc ?E 1 (Args (Some 9)) ?v))) = [0, 1]"
    by (simp add: upt_rec)
  have r1: "fst (Emplace_realloc ?E 1 (Args (Some 9)) ?v) = Some ElemThrow"
    "fst (snd (Emplace_realloc ?E 1 (Args (Some 9)) ?v)) = ?v"
    "fst (snd (snd (Emplace_realloc ?E 1 (Args (Some 9)) ?v))) = Some ?nd"
    by code_simp+
  from r1 lg1 have R1: "Emplace_realloc ?E 1 (Args (Some 9)) ?v = (Some ElemThrow, ?v, Some ?nd, [0, 1])"
    by (metis prod.collapse)
  txt \<open>Position 2: relocating the prefix fails on the element \<open>2\<close>.\<close>
  have f1: "fst (CopyOrMoveNElem ?E (buffer_m (data_v ?v)) 0 2 ((buffer_m ?nd)[2 := Some 9]) 0)
      = Some ElemThrow"
    by code_simp
  from s2 [THEN conjunct2, THEN conjunct2, THEN conjunct1, rule_format, of ?nd 9 ElemThrow]
    al cx l2 f1
  have R2': "Emplace_realloc ?E 2 (Args (Some 9)) ?v =
      (Some ElemThrow,
       set_buffer ?v (fst (snd (CopyOrMoveNElem ?E (buffer_m (data_v ?v)) 0 2
                                  ((buffer_m ?nd)[2 := Some 9]) 0))),
       Some ?nd, [2])"
    and E2': "fst (Emplace ?E 2 (Args (Some 9)) ?v) = Inl ElemThrow"
    by (simp_all del: replicate.simps)
  from E2' have E2'': "Emplace ?E 2 (Args (Some 9)) ?v
      = (Inl ElemThrow, snd (Emplace ?E 2 (Args (Some 9)) ?v))"
    by (metis prod.collapse)
  with s2 [THEN conjunct1, rule_format, of ElemThrow "snd (Emplace ?E 2 (Args (Some 9)) ?v)"]
  have v2: "snd (Emplace ?E 2 (Args (Some 9)) ?v) = ?v"
    and "\<exists>m log. Emplace_realloc ?E 2 (Args (Some 9)) ?v = (Some ElemThrow, ?v, m, log)"
    by auto
  with R2' have R2: "Emplace_realloc ?E 2 (Args (Some 9)) ?v = (Some ElemThrow, ?v, Some ?nd, [2])"
    by auto
  from E2'' v2 have E2: "Emplace ?E 2 (Args (Some 9)) ?v = (Inl ElemThrow, ?v)" by simp
  txt \<open>A branch that returns hands the old block, all its objects destroyed, to \<^verbatim>\<open>new_data_\<close>.\<close>
  have "fst (Emplace_realloc plain_nat 1 (Args (Some 9)) ?v) = None" by code_simp
  then have "Emplace_realloc plain_nat 1 (Args (Some 9)) ?v
      = (None, fst (snd (Emplace_realloc plain_nat 1 (Args (Some 9)) ?v)),
         snd (snd (Emplace_realloc plain_nat 1 (Args (Some 9)) ?v)))"
    by (metis prod.collapse)
  from s3 [THEN conjunct2, THEN conjunct2, THEN conjunct2, THEN conjunct2, THEN conjunct1,
      rule_format, OF this]
  obtain d' where "snd (snd (Emplace_realloc plain_nat 1 (Args (Some 9)) ?v)) = (Some d', [])"
    "capacity_m d' = capacity_m (data_v ?v)"
    "buffer_m d' = replicate (capacity_m (data_v ?v)) None"
    by blast
  then have r': "snd (snd (Emplace_realloc plain_nat 1 (Args (Some 9)) ?v))
      = (Some \<lparr>buffer_m = [None, None, None], capacity_m = 3\<rparr>, [])"
    by (simp add: mk_vector_def numeral_3_eq_3)
  have R0: "Emplace_realloc ?E 1 (Args None) ?v = (Some ElemThrow, ?v, Some ?nd, [])"
    by code_simp
  from e e1 R1 E2 R2 R0 r' i i2 c t3 show ?thesis
    by (simp add: Vector_inv_mk_vector)
qed

section \<open>Growth of the capacity\<close>

lemma Emplace_capacity:
  assumes inv: "Vector_inv v" and e: "Emplace E i args v = (Inr r, v')"
  shows "size_v v' = size_v v + 1 \<and>
         capacity_m (data_v v') =
           (if size_v v + 1 \<le> capacity_m (data_v v) then capacity_m (data_v v) else grown v)"
  using e
proof (cases rule: Emplace_Inr_D)
  case (at_end x)
  then show ?thesis by simp
next
  case (shift v1)
  with Emplace_shift_inv [OF inv shift(1,2), of E args] show ?thesis by simp
next
  case (realloc v1 m)
  with Emplace_realloc_success_inv [OF inv realloc(1,3)] show ?thesis by simp
qed

lemma grown_full:
  assumes "Vector_inv v" and "\<not> size_v v + 1 \<le> capacity_m (data_v v)"
  shows "grown v = max 1 (2 * capacity_m (data_v v))"
proof -
  from assms have "size_v v = capacity_m (data_v v)" by (auto simp: Vector_inv_iff)
  then show ?thesis by (simp add: grown_def)
qed

lemma PushBack_copy_D:
  "PushBack_copy E c v = (None, v') \<Longrightarrow> \<exists>r. Emplace E (size_v v) (ConstRef c) v = (Inr r, v')"
  by (auto simp: PushBack_copy_def EmplaceBack_def split: prod.splits sum.splits)

lemma PushBack_move_D:
  "PushBack_move E y v = (None, v') \<Longrightarrow> \<exists>r. Emplace E (size_v v) (Rvalue y) v = (Inr r, v')"
  by (auto simp: PushBack_move_def EmplaceBack_def split: prod.splits sum.splits)

lemma push_D:
  assumes "apply_op E x v = (None, v')" and "is_push x"
  shows "\<exists>args r. Emplace E (size_v v) args v = (Inr r, v')"
  using assms by (cases x) (simp_all, (blast dest: PushBack_copy_D PushBack_move_D)+)

lemma PushBack_in_place:
  assumes "size_v v + 1 \<le> capacity_m (data_v v)" and "Emplace E (size_v v) args v = (Inr r, v')"
  shows "\<exists>x. buffer_m (data_v v') = (buffer_m (data_v v))[size_v v := Some x]"
  using assms(2,1) by (cases rule: Emplace_Inr_D) auto

lemma doubling_push:
  assumes inv: "Vector_inv v" and d: "doubling v"
    and e: "Emplace E (size_v v) args v = (Inr r, v')"
  shows "doubling v'"
proof -
  from Emplace_capacity [OF inv e] have n: "size_v v' = size_v v + 1"
    and c: "capacity_m (data_v v') =
      (if size_v v + 1 \<le> capacity_m (data_v v) then capacity_m (data_v v) else grown v)"
    by auto
  from d consider "size_v v = 0" "capacity_m (data_v v) = 0"
    | k where "capacity_m (data_v v) = 2 ^ k" "size_v v \<le> 2 ^ k" "2 ^ k < 2 * size_v v"
    by (auto simp: doubling_def)
  then show ?thesis
  proof cases
    case 1
    with n c have "capacity_m (data_v v') = 2 ^ 0" "size_v v' \<le> 2 ^ 0" "2 ^ 0 < 2 * size_v v'"
      by (simp_all add: grown_def)
    then show ?thesis unfolding doubling_def by blast
  next
    case (2 k)
    show ?thesis
    proof (cases "size_v v + 1 \<le> capacity_m (data_v v)")
      case True
      with 2 n c have "capacity_m (data_v v') = 2 ^ k" "size_v v' \<le> 2 ^ k" "2 ^ k < 2 * size_v v'"
        by simp_all
      then show ?thesis unfolding doubling_def by blast
    next
      case False
      with 2 have s: "size_v v = 2 ^ k" by simp
      then have "size_v v \<noteq> 0" by simp
      with False c s have "capacity_m (data_v v') = 2 ^ Suc k" by (simp add: grown_def)
      moreover from n s have "size_v v' \<le> 2 ^ Suc k" "2 ^ Suc k < 2 * size_v v'" by simp_all
      ultimately show ?thesis unfolding doubling_def by blast
    qed
  qed
qed

lemma run_pushes:
  assumes "Vector_inv v" and "doubling v" and "\<forall>x\<in>set ops. is_push x"
    and "run E ops v = Inr v'"
  shows "Vector_inv v' \<and> doubling v' \<and> size_v v' = size_v v + length ops"
  using assms
proof (induction ops arbitrary: v)
  case Nil
  then show ?case by simp
next
  case (Cons x ops)
  from Cons.prems(4) obtain v1 where a: "apply_op E x v = (None, v1)" and r: "run E ops v1 = Inr v'"
    by (auto split: prod.splits option.splits)
  from Cons.prems(3) have px: "is_push x" and ps: "\<forall>x\<in>set ops. is_push x" by auto
  from push_D [OF a px] obtain args r' where e: "Emplace E (size_v v) args v = (Inr r', v1)"
    by blast
  from Emplace_inv [OF Cons.prems(1), of E "size_v v" args] e have i1: "Vector_inv v1" by simp
  from doubling_push [OF Cons.prems(1,2) e] have d1: "doubling v1" .
  from Emplace_capacity [OF Cons.prems(1) e] have n1: "size_v v1 = size_v v + 1" by simp
  from Cons.IH [OF i1 d1 ps r] n1 show ?case by simp
qed

lemma run_pushes_total:
  assumes nt: "nothrow E" and inv: "Vector_inv v"
  shows "\<exists>v'. run E (map PushMoveOp xs) v = Inr v'"
  using inv
proof (induction xs arbitrary: v)
  case Nil
  then show ?case by simp
next
  case (Cons x xs)
  have "args_ok (Rvalue x) v" by (simp add: args_ok_def)
  from Emplace_total [OF nt Cons.prems _ this, of "size_v v"]
  have f: "fst (Emplace E (size_v v) (Rvalue x) v) = Inr (size_v v)" by simp
  from Emplace_inv [OF Cons.prems, of E "size_v v" "Rvalue x"]
  have "Vector_inv (snd (Emplace E (size_v v) (Rvalue x) v))" .
  from Cons.IH [OF this] f show ?case
    by (simp add: PushBack_move_def EmplaceBack_def case_prod_unfold split: sum.splits)
qed

lemma apply_op_inv: "Vector_inv v \<Longrightarrow> Vector_inv (snd (apply_op E x v))"
proof (cases x)
  case (PushCopyOp c)
  assume "Vector_inv v"
  from Emplace_inv [OF this, of E "size_v v" "ConstRef c"] PushCopyOp show ?thesis
    by (simp add: PushBack_copy_def EmplaceBack_def case_prod_unfold split: sum.splits)
next
  case (PushMoveOp y)
  assume "Vector_inv v"
  from Emplace_inv [OF this, of E "size_v v" "Rvalue y"] PushMoveOp show ?thesis
    by (simp add: PushBack_move_def EmplaceBack_def case_prod_unfold split: sum.splits)
next
  case PopOp
  assume "Vector_inv v"
  with PopOp show ?thesis
    by (auto simp: PopBack_def Destroy_def Vector_inv_iff)
qed

lemma PushBack_copy_total:
  assumes "nothrow E" and "Vector_inv v" and "case c of Own j \<Rightarrow> j < size_v v | Outside x \<Rightarrow> True"
  shows "fst (PushBack_copy E c v) = None"
proof -
  from assms(3) have "args_ok (ConstRef c) v" by (simp add: args_ok_def split: cref.splits)
  from Emplace_total [OF assms(1,2) _ this, of "size_v v"] show ?thesis
    by (simp add: PushBack_copy_def EmplaceBack_def case_prod_unfold split: sum.splits)
qed

lemma PushBack_move_total:
  assumes "nothrow E" and "Vector_inv v"
  shows "fst (PushBack_move E y v) = None"
proof -
  have "args_ok (Rvalue y) v" by (simp add: args_ok_def)
  from Emplace_total [OF assms(1,2) _ this, of "size_v v"] show ?thesis
    by (simp add: PushBack_move_def EmplaceBack_def case_prod_unfold split: sum.splits)
qed

lemma run_total:
  assumes nt: "nothrow E" and inv: "Vector_inv v"
    and ok: "\<forall>x\<in>set ops. \<forall>j. x \<noteq> PushCopyOp (Own j)"
  shows "\<exists>v'. run E ops v = Inr v'"
  using inv ok
proof (induction ops arbitrary: v)
  case Nil
  then show ?case by simp
next
  case (Cons x ops)
  have f: "fst (apply_op E x v) = None"
  proof (cases x)
    case (PushCopyOp c)
    with Cons.prems(2) obtain y where c: "c = Outside y" by (cases c) auto
    from PushBack_copy_total [OF nt Cons.prems(1), of c] PushCopyOp c show ?thesis by simp
  next
    case (PushMoveOp y)
    from PushBack_move_total [OF nt Cons.prems(1), of y] PushMoveOp show ?thesis by simp
  next
    case PopOp
    then show ?thesis by simp
  qed
  from apply_op_inv [OF Cons.prems(1), of E x] have "Vector_inv (snd (apply_op E x v))" .
  from Cons.IH [OF this] Cons.prems(2) f show ?case
    by (simp add: case_prod_unfold split: option.splits)
qed

text \<open>
  Claim C5. On a vector that satisfies the invariant, an \<^verbatim>\<open>Emplace\<close> that returns
  keeps the capacity when the new length fits it and otherwise leaves the
  capacity \<open>max 1 (2 * capacity)\<close> (the code doubles the length, which equals the
  capacity whenever the branch is taken). A \<^verbatim>\<open>PushBack\<close> that fits does not
  reallocate: the capacity is the same and the block is the former block with
  the new element written into slot \<open>size\<close>. Starting from an empty vector, after
  \<open>n > 0\<close> pushes the capacity is the power of two \<open>2 ^ k\<close> with
  \<open>n \<le> 2 ^ k < 2 * n\<close>: \<open>1, 2, 4, 4, 8, 8, 8, 8, 16, ...\<close>. When nothing throws,
  \<^verbatim>\<open>PushBack(const T&)\<close> of an object outside the vector or of a live own element
  returns, \<^verbatim>\<open>PushBack(T&&)\<close> returns, and so does every run of pushes of either
  kind onto an empty vector; the capacity is then the one just described.
\<close>

theorem growth_policy:
  assumes "Vector_inv v"
  shows "(\<forall>i args r v'. Emplace E i args v = (Inr r, v') \<longrightarrow>
            Capacity v' =
              (if Size v + 1 \<le> Capacity v then Capacity v else max 1 (2 * Capacity v))) \<and>
         (\<forall>c v'. Size v + 1 \<le> Capacity v \<and> PushBack_copy E c v = (None, v') \<longrightarrow>
            Capacity v' = Capacity v \<and>
            (\<exists>x. buffer_m (data_v v') = (buffer_m (data_v v))[Size v := Some x])) \<and>
         (\<forall>y v'. Size v + 1 \<le> Capacity v \<and> PushBack_move E y v = (None, v') \<longrightarrow>
            Capacity v' = Capacity v \<and>
            (\<exists>x. buffer_m (data_v v') = (buffer_m (data_v v))[Size v := Some x])) \<and>
         (\<forall>ops v'. ops \<noteq> [] \<and> (\<forall>x\<in>set ops. is_push x) \<and> run E ops Vector_default = Inr v' \<longrightarrow>
            (\<exists>k. Capacity v' = 2 ^ k \<and> length ops \<le> 2 ^ k \<and> 2 ^ k < 2 * length ops)) \<and>
         (nothrow E \<longrightarrow> (\<forall>xs. \<exists>v'. run E (map PushMoveOp xs) Vector_default = Inr v')) \<and>
         (nothrow E \<longrightarrow>
            (\<forall>x. fst (PushBack_copy E (Outside x) v) = None) \<and>
            (\<forall>j<Size v. fst (PushBack_copy E (Own j) v) = None) \<and>
            (\<forall>y. fst (PushBack_move E y v) = None) \<and>
            (\<forall>xs. \<exists>v'. run E (map (\<lambda>x. PushCopyOp (Outside x)) xs) Vector_default = Inr v') \<and>
            (\<forall>ops. (\<forall>x\<in>set ops. \<forall>j. x \<noteq> PushCopyOp (Own j)) \<longrightarrow>
               (\<exists>v'. run E ops Vector_default = Inr v')))"
proof (intro conjI allI impI)
  fix i args r v' assume e: "Emplace E i args v = (Inr r, v')"
  show "Capacity v' = (if Size v + 1 \<le> Capacity v then Capacity v else max 1 (2 * Capacity v))"
    using Emplace_capacity [OF assms e] grown_full [OF assms]
    by (simp add: Capacity_def Size_def RawMemory_Capacity_def)
next
  fix c v' assume a: "Size v + 1 \<le> Capacity v \<and> PushBack_copy E c v = (None, v')"
  then obtain r where e: "Emplace E (size_v v) (ConstRef c) v = (Inr r, v')"
    by (blast dest: PushBack_copy_D)
  from a have fit: "size_v v + 1 \<le> capacity_m (data_v v)"
    by (simp add: Capacity_def Size_def RawMemory_Capacity_def)
  from Emplace_capacity [OF assms e] fit show "Capacity v' = Capacity v"
    by (simp add: Capacity_def RawMemory_Capacity_def)
  from PushBack_in_place [OF fit e]
  show "\<exists>x. buffer_m (data_v v') = (buffer_m (data_v v))[Size v := Some x]"
    by (simp add: Size_def)
next
  fix y v' assume a: "Size v + 1 \<le> Capacity v \<and> PushBack_move E y v = (None, v')"
  then obtain r where e: "Emplace E (size_v v) (Rvalue y) v = (Inr r, v')"
    by (blast dest: PushBack_move_D)
  from a have fit: "size_v v + 1 \<le> capacity_m (data_v v)"
    by (simp add: Capacity_def Size_def RawMemory_Capacity_def)
  from Emplace_capacity [OF assms e] fit show "Capacity v' = Capacity v"
    by (simp add: Capacity_def RawMemory_Capacity_def)
  from PushBack_in_place [OF fit e]
  show "\<exists>x. buffer_m (data_v v') = (buffer_m (data_v v))[Size v := Some x]"
    by (simp add: Size_def)
next
  fix ops :: "'a op list" and v'
  assume a: "ops \<noteq> [] \<and> (\<forall>x\<in>set ops. is_push x) \<and> run E ops Vector_default = Inr v'"
  have i0: "Vector_inv (Vector_default :: 'a Vector)"
    by (simp add: Vector_inv_def Vector_default_def RawMemory_default_def)
  have d0: "doubling (Vector_default :: 'a Vector)"
    by (simp add: doubling_def Vector_default_def RawMemory_default_def)
  from a run_pushes [OF i0 d0, of ops E v'] have "doubling v'" "size_v v' = length ops"
    by (auto simp: Vector_default_def)
  with a show "\<exists>k. Capacity v' = 2 ^ k \<and> length ops \<le> 2 ^ k \<and> 2 ^ k < 2 * length ops"
    by (auto simp: doubling_def Capacity_def RawMemory_Capacity_def)
next
  fix xs assume "nothrow E"
  moreover have "Vector_inv (Vector_default :: 'a Vector)"
    by (simp add: Vector_inv_def Vector_default_def RawMemory_default_def)
  ultimately show "\<exists>v'. run E (map PushMoveOp xs) Vector_default = Inr v'"
    by (rule run_pushes_total)
next
  fix x assume "nothrow E"
  from PushBack_copy_total [OF this assms, of "Outside x"]
  show "fst (PushBack_copy E (Outside x) v) = None" by simp
next
  fix j assume "nothrow E" "j < Size v"
  from PushBack_copy_total [OF this(1) assms, of "Own j"] this(2)
  show "fst (PushBack_copy E (Own j) v) = None" by (simp add: Size_def)
next
  fix y assume "nothrow E"
  from PushBack_move_total [OF this assms] show "fst (PushBack_move E y v) = None" .
next
  fix xs assume nt: "nothrow E"
  have "Vector_inv (Vector_default :: 'a Vector)"
    by (simp add: Vector_inv_def Vector_default_def RawMemory_default_def)
  from run_total [OF nt this, of "map (\<lambda>x. PushCopyOp (Outside x)) xs"]
  show "\<exists>v'. run E (map (\<lambda>x. PushCopyOp (Outside x)) xs) Vector_default = Inr v'" by auto
next
  fix ops :: "'a op list"
  assume nt: "nothrow E" and ok: "\<forall>x\<in>set ops. \<forall>j. x \<noteq> PushCopyOp (Own j)"
  have "Vector_inv (Vector_default :: 'a Vector)"
    by (simp add: Vector_inv_def Vector_default_def RawMemory_default_def)
  from run_total [OF nt this ok] show "\<exists>v'. run E ops Vector_default = Inr v'" .
qed

theorem growth_policy_witness:
  "Vector_inv (mk_vector [1, 2::nat] 0) \<and> nothrow plain_nat \<and>
   Capacity (snd (Emplace plain_nat 1 (Args (Some 3)) (mk_vector [1, 2] 0))) = 4 \<and>
   Capacity (snd (Emplace plain_nat 1 (Args (Some 3)) (mk_vector [1, 2] 1))) = 3 \<and>
   PushBack_copy plain_nat (Outside 3) (mk_vector [1, 2] 0)
     = (None, mk_vector [1, 2, 3] 1) \<and>
   PushBack_copy plain_nat (Own 0) (mk_vector [1, 2] 1) = (None, mk_vector [1, 2, 1] 0) \<and>
   PushBack_move plain_nat 3 (mk_vector [1, 2] 1) = (None, mk_vector [1, 2, 3] 0) \<and>
   map (\<lambda>n. case run plain_nat (map PushMoveOp (replicate n 7)) Vector_default of
              Inr v \<Rightarrow> Capacity v | Inl e \<Rightarrow> 0) [1, 2, 3, 4, 5, 6, 7, 8, 9]
     = [1, 2, 4, 4, 8, 8, 8, 8, 16] \<and>
   map (\<lambda>n. case run plain_nat (map (\<lambda>x. PushCopyOp (Outside x)) (replicate n 7)) Vector_default of
              Inr v \<Rightarrow> Capacity v | Inl e \<Rightarrow> 0) [1, 2, 3, 4, 5, 6, 7, 8, 9]
     = [1, 2, 4, 4, 8, 8, 8, 8, 16]"
proof -
  let ?v = "mk_vector [1, 2::nat] 0"
  note s = growth_policy [OF Vector_inv_mk_vector, where xs1 = "[1, 2::nat]" and spare1 = 0 and E = plain_nat]
  have "fst (Emplace plain_nat 1 (Args (Some 3)) ?v) = Inr 1" by code_simp
  then have "Emplace plain_nat 1 (Args (Some 3)) ?v
      = (Inr 1, snd (Emplace plain_nat 1 (Args (Some 3)) ?v))"
    by (metis prod.collapse)
  with s [THEN conjunct1] have "Capacity (snd (Emplace plain_nat 1 (Args (Some 3)) ?v))
      = (if Size ?v + 1 \<le> Capacity ?v then Capacity ?v else max 1 (2 * Capacity ?v))"
    by blast
  then have c1: "Capacity (snd (Emplace plain_nat 1 (Args (Some 3)) ?v)) = 4"
    by (simp add: Capacity_def Size_def RawMemory_Capacity_def mk_vector_def)
  have c2: "Capacity (snd (Emplace plain_nat 1 (Args (Some 3)) (mk_vector [1, 2] 1))) = 3"
    by code_simp
  have c3: "map (\<lambda>n. case run plain_nat (map PushMoveOp (replicate n 7)) Vector_default of
              Inr v \<Rightarrow> Capacity v | Inl e \<Rightarrow> 0) [1, 2, 3, 4, 5, 6, 7, 8, 9]
     = [1, 2, 4, 4, 8, 8, 8, 8, 16]"
    by code_simp
  have c4: "map (\<lambda>n. case run plain_nat (map (\<lambda>x. PushCopyOp (Outside x)) (replicate n 7)) Vector_default of
              Inr v \<Rightarrow> Capacity v | Inl e \<Rightarrow> 0) [1, 2, 3, 4, 5, 6, 7, 8, 9]
     = [1, 2, 4, 4, 8, 8, 8, 8, 16]"
    by code_simp
  have p1: "PushBack_copy plain_nat (Outside 3) (mk_vector [1, 2] 0) = (None, mk_vector [1, 2, 3] 1)"
    by code_simp
  have p2: "PushBack_copy plain_nat (Own 0) (mk_vector [1, 2] 1) = (None, mk_vector [1, 2, 1] 0)"
    by code_simp
  have p3: "PushBack_move plain_nat 3 (mk_vector [1, 2] 1) = (None, mk_vector [1, 2, 3] 0)"
    by code_simp
  from c1 c2 c3 c4 p1 p2 p3 show ?thesis by (simp add: Vector_inv_mk_vector plain_nat_nothrow)
qed

section \<open>Move construction and move assignment\<close>

lemma Swap_eq: "Swap (a, b) = (b, a)"
  by (simp add: Swap_def RawMemory_Swap_def)

text \<open>
  Claim C4, as stated, says that move assignment leaves its source empty. The
  move assignment operator swaps: the source receives what the destination
  held. Move-assigning object \<open>1\<close> (\<open>[1, 2, 3]\<close>) to object \<open>0\<close> (\<open>[7, 8]\<close>) leaves
  the source with size \<open>2\<close>, capacity \<open>2\<close> and the elements \<open>[7, 8]\<close>.
\<close>

theorem assign_move_source_counterexample:
  "Size (assign_move 0 1 two_vectors 1) = 2 \<and> Capacity (assign_move 0 1 two_vectors 1) = 2 \<and>
   elems (assign_move 0 1 two_vectors 1) = [7, 8] \<and>
   assign_move 0 1 two_vectors 1 \<noteq> Vector_default"
  by (simp add: assign_move_def Swap_at_def Swap_eq two_vectors_def elems_mk_vector
        Size_def Capacity_def RawMemory_Capacity_def)
     (simp add: mk_vector_def Vector_default_def)

text \<open>
  Claim C4, amended. Move construction leaves the new vector with exactly the
  state the source had (block, capacity and size, hence the same elements) and
  the source in the default state, size \<open>0\<close> and capacity \<open>0\<close>. Move assignment
  between two distinct objects exchanges their states: the destination has what
  the source had, and the source has what the destination had, so it is empty
  only if the destination was. Self move assignment changes nothing. Neither
  operation allocates or throws: \<open>Vector_move\<close> and \<open>assign_move\<close> take no
  allocator and no element operation and have no error result.
\<close>

theorem move_spec:
  "Vector_move other = (other, Vector_default) \<and>
   Size (snd (Vector_move other)) = 0 \<and> Capacity (snd (Vector_move other)) = 0 \<and>
   Size (fst (Vector_move other)) = Size other \<and> elems (fst (Vector_move other)) = elems other \<and>
   (this \<noteq> that \<longrightarrow>
      assign_move this that st this = st that \<and> assign_move this that st that = st this \<and>
      (\<forall>a. a \<noteq> this \<and> a \<noteq> that \<longrightarrow> assign_move this that st a = st a)) \<and>
   assign_move this this st = st"
  by (simp add: Vector_move_def Swap_eq assign_move_def Swap_at_def Size_def Capacity_def
        RawMemory_Capacity_def Vector_default_def RawMemory_default_def)

theorem move_spec_witness:
  "(0::nat) \<noteq> 1 \<and>
   assign_move 0 1 two_vectors 0 = mk_vector [1, 2, 3] 0 \<and>
   assign_move 0 1 two_vectors 1 = mk_vector [7, 8] 0 \<and>
   assign_move 0 1 two_vectors 5 = Vector_default \<and>
   Vector_move (mk_vector [1, 2, 3::nat] 0) = (mk_vector [1, 2, 3] 0, Vector_default)"
  using move_spec [of "mk_vector [1, 2, 3::nat] 0" 0 1 two_vectors]
  by (simp add: two_vectors_def)

section \<open>Copy construction and copy assignment\<close>

lemma Vector_copy_D:
  assumes "Vector_copy E other = Inr c"
  shows "fst (uninitialized_copy_n E (buffer_m (data_v other)) 0 (size_v other)
            (replicate (size_v other) None) 0) = None \<and>
         c = \<lparr>data_v = \<lparr>buffer_m = snd (uninitialized_copy_n E (buffer_m (data_v other)) 0
                   (size_v other) (replicate (size_v other) None) 0),
                 capacity_m = size_v other\<rparr>, size_v = size_v other\<rparr>"
proof -
  from assms obtain d where d: "RawMemory_sized E (size_v other) = Inr d"
    by (auto simp: Vector_copy_def split: sum.splits)
  with assms
  have ok: "fst (uninitialized_copy_n E (buffer_m (data_v other)) 0 (size_v other) (buffer_m d) 0)
      = None"
    by (auto simp: Vector_copy_def case_prod_unfold split: option.splits)
  have "size_v other \<le> length (buffer_m d)"
  proof (cases "size_v other")
    case 0
    then show ?thesis by simp
  next
    case (Suc n)
    then have "0 < size_v other" by simp
    from ucopy_range [OF ok this] show ?thesis by simp
  qed
  from exact_block [OF d this] have "d = \<lparr>buffer_m = replicate (size_v other) None,
      capacity_m = size_v other\<rparr>" .
  with assms d show ?thesis
    by (auto simp: Vector_copy_def case_prod_unfold split: option.splits)
qed

lemma Vector_copy_slots:
  assumes c: "Vector_copy E other = Inr c" and k: "k < size_v other"
  shows "\<exists>x y. live (buffer_m (data_v other)) k = Some x \<and> copy_ctor E x = Some y \<and>
           buffer_m (data_v c) ! k = Some y"
proof -
  from Vector_copy_D [OF c] ucopy_success [of E "buffer_m (data_v other)" 0 "size_v other"
      "replicate (size_v other) None" 0 k] k
  show ?thesis by auto
qed

lemma Vector_copy_inv:
  assumes "Vector_copy E other = Inr c"
  shows "Vector_inv c \<and> size_v c = size_v other \<and> capacity_m (data_v c) = size_v other"
proof -
  from Vector_copy_D [OF assms] have "size_v c = size_v other"
    "capacity_m (data_v c) = size_v other" "length (buffer_m (data_v c)) = size_v other"
    by auto
  moreover from Vector_copy_slots [OF assms]
  have "\<forall>k<size_v other. buffer_m (data_v c) ! k \<noteq> None" by fastforce
  ultimately show ?thesis by (simp add: Vector_inv_iff)
qed

lemma Vector_copy_elems:
  assumes c: "Vector_copy E other = Inr c" and vs: "value_semantics E" and inv: "Vector_inv other"
  shows "elems c = elems other"
proof (rule nth_equalityI)
  from Vector_copy_inv [OF c] inv show "length (elems c) = length (elems other)"
    by (simp add: length_elems)
next
  fix k assume "k < length (elems c)"
  with Vector_copy_inv [OF c] have k: "k < size_v other" "k < size_v c" by (simp_all add: length_elems)
  from Vector_copy_slots [OF c k(1)] obtain x y where
    x: "live (buffer_m (data_v other)) k = Some x" and y: "copy_ctor E x = Some y"
    and b: "buffer_m (data_v c) ! k = Some y"
    by blast
  from y vs have "y = x" unfolding value_semantics_def by blast
  with x b have "buffer_m (data_v c) ! k = buffer_m (data_v other) ! k"
    by (simp add: live_Some_iff)
  with elems_nth [OF inv k(1)] elems_nth [of c k] Vector_copy_inv [OF c] k
  show "elems c ! k = elems other ! k" by simp
qed

lemma Vector_copy_total:
  assumes nt: "nothrow E" and inv: "Vector_inv other"
  shows "\<exists>c. Vector_copy E other = Inr c"
proof -
  from nt have "operator_new E (size_v other) = Room" and ct: "\<forall>x. copy_ctor E x \<noteq> None"
    by (simp_all add: nothrow_def)
  from RawMemory_sized_total [OF this(1)]
  have d: "RawMemory_sized E (size_v other)
      = Inr \<lparr>buffer_m = replicate (size_v other) None, capacity_m = size_v other\<rparr>" .
  have "\<forall>k<size_v other. live (buffer_m (data_v other)) (0 + k) \<noteq> None"
    using inv by (simp add: inv_live)
  moreover have "0 + size_v other \<le> length (replicate (size_v other) (None :: 'a option))"
    by simp
  ultimately
  have "fst (uninitialized_copy_n E (buffer_m (data_v other)) 0 (size_v other)
      (replicate (size_v other) None) 0) = None"
    by (rule ucopy_total [OF ct])
  with d show ?thesis
    by (simp add: Vector_copy_def case_prod_unfold)
qed

lemma assign_copy_unfold:
  "assign_copy E this that st =
     (if this \<noteq> that then
        (if capacity_m (data_v (st this)) < size_v (st that) then
           (case Vector_copy E (st that) of
              Inl e \<Rightarrow> (Some e, st)
            | Inr c \<Rightarrow> (None, st(this := c)))
         else (fst (assign_copy_reuse E (st this) (st that)),
               st(this := snd (assign_copy_reuse E (st this) (st that)))))
      else (None, st))"
  by (auto simp: assign_copy_def Swap_eq case_prod_unfold split: sum.splits)

lemma assign_copy_reuse_success:
  assumes it: "Vector_inv t" and io: "Vector_inv oth" and vs: "value_semantics E"
    and fit: "size_v oth \<le> capacity_m (data_v t)"
    and r: "assign_copy_reuse E t oth = (None, t')"
  shows "size_v t' = size_v oth \<and> capacity_m (data_v t') = capacity_m (data_v t) \<and>
         length (buffer_m (data_v t')) = length (buffer_m (data_v t)) \<and>
         (\<forall>k<size_v oth. buffer_m (data_v t') ! k = buffer_m (data_v oth) ! k) \<and>
         (\<forall>k. size_v oth \<le> k \<and> k < size_v t \<longrightarrow> buffer_m (data_v t') ! k = None)"
proof -
  let ?src = "buffer_m (data_v oth)"
  let ?bt = "buffer_m (data_v t)"
  let ?m = "min (size_v t) (size_v oth)"
  let ?c = "std_copy E ?src 0 ?m ?bt 0"
  let ?b = "snd ?c"
  from it fit have lt: "length ?bt = capacity_m (data_v t)" "size_v t \<le> length ?bt"
    "size_v oth \<le> length ?bt"
    by (auto simp: Vector_inv_iff)
  from r have ok: "fst ?c = None"
    by (auto simp: assign_copy_reuse_def case_prod_unfold split: option.splits if_splits)
  have low: "?b ! k = ?src ! k" if "k < ?m" for k
    using std_copy_success [OF ok vs, of k] that by simp
  have high: "?b ! k = ?bt ! k" if "?m \<le> k" for k
    using std_copy_outside [of k 0 ?m 0 E ?src ?bt] that by simp
  show ?thesis
  proof (cases "size_v t < size_v oth")
    case True
    let ?u = "uninitialized_copy_n E ?src (size_v t) (size_v oth - size_v t) ?b (size_v t)"
    from r ok True have ok2: "fst ?u = None"
      and t': "t' = (set_buffer t (snd ?u))\<lparr>size_v := size_v oth\<rparr>"
      by (auto simp: assign_copy_reuse_def case_prod_unfold split: option.splits)
    have "snd ?u ! k = ?src ! k" if k: "k < size_v oth" for k
    proof (cases "k < size_v t")
      case kt: True
      with ucopy_outside [of k "size_v t" "size_v oth - size_v t" E ?src "size_v t" ?b]
        low [of k] True show ?thesis by simp
    next
      case False
      then obtain j where j: "k = size_v t + j" by (metis le_add_diff_inverse not_less)
      with k have jl: "j < size_v oth - size_v t" by simp
      from ucopy_success [OF ok2 jl] obtain x y where
        x: "live ?src (size_v t + j) = Some x" and y: "copy_ctor E x = Some y"
        and b: "size_v t + j < length ?b \<longrightarrow> snd ?u ! (size_v t + j) = Some y"
        by blast
      from y vs have "y = x" unfolding value_semantics_def by blast
      with x b j k lt show ?thesis by (simp add: live_Some_iff)
    qed
    with True show ?thesis by (auto simp: t')
  next
    case False
    with r ok have t': "t' = (set_buffer t (destroy_n ?b (size_v oth) (size_v t - size_v oth)))
        \<lparr>size_v := size_v oth\<rparr>"
      by (auto simp: assign_copy_reuse_def case_prod_unfold split: option.splits)
    from False have m: "?m = size_v oth" by simp
    have "destroy_n ?b (size_v oth) (size_v t - size_v oth) ! k = ?src ! k" if "k < size_v oth" for k
      using that lt low [of k] m by (simp add: nth_destroy_n)
    moreover have "destroy_n ?b (size_v oth) (size_v t - size_v oth) ! k = None"
      if "size_v oth \<le> k" "k < size_v t" for k
      using that lt by (simp add: nth_destroy_n)
    ultimately show ?thesis by (simp add: t')
  qed
qed

lemma assign_copy_reuse_inv:
  assumes it: "Vector_inv t" and io: "Vector_inv oth"
    and fit: "size_v oth \<le> capacity_m (data_v t)"
  shows "Vector_inv (snd (assign_copy_reuse E t oth))"
proof -
  let ?src = "buffer_m (data_v oth)"
  let ?bt = "buffer_m (data_v t)"
  let ?m = "min (size_v t) (size_v oth)"
  let ?c = "std_copy E ?src 0 ?m ?bt 0"
  let ?b = "snd ?c"
  let ?u = "uninitialized_copy_n E ?src (size_v t) (size_v oth - size_v t) ?b (size_v t)"
  from it fit have lt: "length ?bt = capacity_m (data_v t)" "size_v t \<le> length ?bt"
    "size_v oth \<le> length ?bt" and lv: "\<And>k. k < size_v t \<Longrightarrow> ?bt ! k \<noteq> None"
    by (auto simp: Vector_inv_iff)
  have b: "?b ! k \<noteq> None" if "k < size_v t" for k
    using std_copy_shape [of k ?bt E ?src 0 ?m 0] that lt lv [of k] by simp
  have u1: "snd ?u ! k \<noteq> None" if "k < size_v t" for k
    using ucopy_outside [of k "size_v t" "size_v oth - size_v t" E ?src "size_v t" ?b] that b [of k]
    by simp
  have u2: "snd ?u ! k \<noteq> None" if ok: "fst ?u = None" and k: "size_v t \<le> k" "k < size_v oth" for k
  proof -
    from k obtain j where j: "k = size_v t + j" by (metis le_add_diff_inverse)
    with k have jl: "j < size_v oth - size_v t" by simp
    from ucopy_success [OF ok jl] j k lt show ?thesis by auto
  qed
  have u: "snd ?u ! k \<noteq> None" if "fst ?u = None" "k < size_v oth" for k
    using that u1 [of k] u2 [of k] by (cases "k < size_v t") simp_all
  have d: "destroy_n ?b (size_v oth) (size_v t - size_v oth) ! k \<noteq> None"
    if "k < size_v oth" "\<not> size_v t < size_v oth" for k
    using that lt b [of k] by (simp add: nth_destroy_n)
  show ?thesis
    using it fit lt b u1 u d
    by (auto simp: assign_copy_reuse_def case_prod_unfold Vector_inv_iff split: option.splits)
qed

lemma assign_copy_reuse_total:
  assumes nt: "nothrow E" and it: "Vector_inv t" and io: "Vector_inv oth"
    and fit: "size_v oth \<le> capacity_m (data_v t)"
  shows "fst (assign_copy_reuse E t oth) = None"
proof -
  let ?src = "buffer_m (data_v oth)"
  let ?bt = "buffer_m (data_v t)"
  let ?m = "min (size_v t) (size_v oth)"
  from nt have at: "\<forall>d s. copy_assign E d s \<noteq> None" and ct: "\<forall>x. copy_ctor E x \<noteq> None"
    by (simp_all add: nothrow_def)
  have s: "\<forall>j. 0 \<le> j \<and> j < ?m \<longrightarrow> live ?src j \<noteq> None"
    using io by (simp add: inv_live)
  have d: "\<forall>j. 0 \<le> j \<and> j < 0 + (?m - 0) \<longrightarrow> live ?bt j \<noteq> None"
    using it by (simp add: inv_live)
  from std_copy_total [OF at s d] have ok: "fst (std_copy E ?src 0 ?m ?bt 0) = None" .
  have lv: "\<forall>k<size_v oth - size_v t. live ?src (size_v t + k) \<noteq> None"
    using io by (simp add: inv_live)
  from it fit have fits: "size_v t + (size_v oth - size_v t) \<le> length ?bt"
    unfolding Vector_inv_iff by linarith
  have "fst (uninitialized_copy_n E ?src (size_v t) (size_v oth - size_v t) dst (size_v t)) = None"
    if "length dst = length ?bt" for dst
    using fits that by (intro ucopy_total [OF ct lv]) simp
  with ok show ?thesis
    by (simp add: assign_copy_reuse_def case_prod_unfold split: option.splits)
qed

lemma elems_eqI:
  assumes "Vector_inv a" and "Vector_inv b" and "size_v a = size_v b"
    and "\<forall>k<size_v b. buffer_m (data_v a) ! k = buffer_m (data_v b) ! k"
  shows "elems a = elems b"
proof (rule nth_equalityI)
  from assms(1-3) show "length (elems a) = length (elems b)" by (simp add: length_elems)
next
  fix k assume "k < length (elems a)"
  with assms(1,3) have k: "k < size_v a" "k < size_v b" by (simp_all add: length_elems)
  with elems_nth [OF assms(1) k(1)] elems_nth [OF assms(2) k(2)] assms(4)
  show "elems a ! k = elems b ! k" by simp
qed

text \<open>
  Claim C7. Let \<open>this\<close> and \<open>that\<close> be two distinct vectors that satisfy the
  invariant, of an element type with value semantics. After a copy assignment
  that returns, \<open>this\<close> has the length and the elements of \<open>that\<close>, in order, and
  satisfies the invariant; \<open>that\<close> and every other object are unchanged. When the
  capacity was too small the new capacity is the length of \<open>that\<close> (the state of
  a fresh copy, swapped in); otherwise the capacity is kept, the block is reused
  and the slots of former elements beyond the new length hold no object any
  more. When nothing throws the assignment returns. Assigning a vector to itself
  returns with the store unchanged.
\<close>

theorem copy_assign_spec:
  assumes "this \<noteq> that" and "Vector_inv (st this)" and "Vector_inv (st that)"
    and "value_semantics E"
  shows "(\<forall>st'. assign_copy E this that st = (None, st') \<longrightarrow>
            Size (st' this) = Size (st that) \<and> elems (st' this) = elems (st that) \<and>
            Vector_inv (st' this) \<and> (\<forall>a. a \<noteq> this \<longrightarrow> st' a = st a) \<and>
            Capacity (st' this) =
              (if Capacity (st this) < Size (st that) then Size (st that) else Capacity (st this)) \<and>
            (\<forall>k. Size (st that) \<le> k \<and> k < Size (st this) \<longrightarrow>
                 live (buffer_m (data_v (st' this))) k = None)) \<and>
         (nothrow E \<longrightarrow> fst (assign_copy E this that st) = None) \<and>
         assign_copy E this this st = (None, st)"
proof -
  let ?t = "st this" and ?o = "st that"
  have p1: "Size (st' this) = Size ?o \<and> elems (st' this) = elems ?o \<and>
      Vector_inv (st' this) \<and> (\<forall>a. a \<noteq> this \<longrightarrow> st' a = st a) \<and>
      Capacity (st' this) = (if Capacity ?t < Size ?o then Size ?o else Capacity ?t) \<and>
      (\<forall>k. Size ?o \<le> k \<and> k < Size ?t \<longrightarrow> live (buffer_m (data_v (st' this))) k = None)"
    if a: "assign_copy E this that st = (None, st')" for st'
  proof (cases "capacity_m (data_v ?t) < size_v ?o")
    case True
    with a assms(1) obtain c where c: "Vector_copy E ?o = Inr c" and st': "st' = st(this := c)"
      by (auto simp: assign_copy_unfold split: sum.splits)
    from assms(2) True have "\<not> (size_v ?o \<le> k \<and> k < size_v ?t)" for k
      by (auto simp: Vector_inv_iff)
    with Vector_copy_inv [OF c] Vector_copy_elems [OF c assms(4,3)] True show ?thesis
      by (auto simp: st' Size_def Capacity_def RawMemory_Capacity_def)
  next
    case False
    then have fit: "size_v ?o \<le> capacity_m (data_v ?t)" by simp
    from a assms(1) False have r: "assign_copy_reuse E ?t ?o = (None, st' this)"
      and st': "st' = st(this := snd (assign_copy_reuse E ?t ?o))"
      by (auto simp: assign_copy_unfold split: if_splits) (metis prod.collapse)
    from assign_copy_reuse_inv [OF assms(2,3) fit, of E] r have i': "Vector_inv (st' this)" by simp
    from assign_copy_reuse_success [OF assms(2,3,4) fit r]
    have n: "size_v (st' this) = size_v ?o"
      and cp: "capacity_m (data_v (st' this)) = capacity_m (data_v ?t)"
      and l: "length (buffer_m (data_v (st' this))) = length (buffer_m (data_v ?t))"
      and s: "\<forall>k<size_v ?o. buffer_m (data_v (st' this)) ! k = buffer_m (data_v ?o) ! k"
      and z: "\<forall>k. size_v ?o \<le> k \<and> k < size_v ?t \<longrightarrow> buffer_m (data_v (st' this)) ! k = None"
      by auto
    from elems_eqI [OF i' assms(3) n s] have e: "elems (st' this) = elems ?o" .
    have o: "\<forall>a. a \<noteq> this \<longrightarrow> st' a = st a" by (subst st') simp
    from z have "\<forall>k. size_v ?o \<le> k \<and> k < size_v ?t \<longrightarrow> live (buffer_m (data_v (st' this))) k = None"
      by (simp add: live_def)
    with n cp e i' o False show ?thesis
      by (simp add: Size_def Capacity_def RawMemory_Capacity_def)
  qed
  have p2: "fst (assign_copy E this that st) = None" if nt: "nothrow E"
  proof (cases "capacity_m (data_v (st this)) < size_v (st that)")
    case True
    from Vector_copy_total [OF nt assms(3)] obtain c where "Vector_copy E (st that) = Inr c" ..
    with True assms(1) show ?thesis by (simp add: assign_copy_unfold)
  next
    case False
    then have "size_v (st that) \<le> capacity_m (data_v (st this))" by simp
    from assign_copy_reuse_total [OF nt assms(2,3) this] False assms(1) show ?thesis
      by (simp add: assign_copy_unfold)
  qed
  have p3: "assign_copy E this this st = (None, st)" by (simp add: assign_copy_def)
  from p1 p2 p3 show ?thesis by blast
qed

theorem copy_assign_spec_witness:
  "(0::nat) \<noteq> 1 \<and> Vector_inv (two_vectors 0) \<and> Vector_inv (two_vectors 1) \<and>
   value_semantics plain_nat \<and> nothrow plain_nat \<and>
   fst (assign_copy plain_nat 0 1 two_vectors) = None \<and>
   elems (snd (assign_copy plain_nat 0 1 two_vectors) 0) = [1, 2, 3] \<and>
   Capacity (snd (assign_copy plain_nat 0 1 two_vectors) 0) = 3 \<and>
   fst (assign_copy plain_nat 1 0 two_vectors) = None \<and>
   elems (snd (assign_copy plain_nat 1 0 two_vectors) 1) = [7, 8] \<and>
   buffer_m (data_v (snd (assign_copy plain_nat 1 0 two_vectors) 1)) = [Some 7, Some 8, None] \<and>
   assign_copy plain_nat 1 1 two_vectors = (None, two_vectors)"
proof -
  have i0: "Vector_inv (two_vectors 0)" and i1: "Vector_inv (two_vectors 1)"
    by (simp_all add: two_vectors_def Vector_inv_mk_vector)
  have e0: "elems (two_vectors 0) = [7, 8]" and e1: "elems (two_vectors 1) = [1, 2, 3]"
    by (simp_all add: two_vectors_def elems_mk_vector)
  have ne: "(0::nat) \<noteq> 1" "(1::nat) \<noteq> 0" by simp_all
  note a = copy_assign_spec [OF ne(1) i0 i1 plain_nat_value_semantics]
  note b = copy_assign_spec [OF ne(2) i1 i0 plain_nat_value_semantics]
  from a plain_nat_nothrow have fa: "fst (assign_copy plain_nat 0 1 two_vectors) = None" by blast
  then have "assign_copy plain_nat 0 1 two_vectors = (None, snd (assign_copy plain_nat 0 1 two_vectors))"
    by (metis prod.collapse)
  with a have ra: "elems (snd (assign_copy plain_nat 0 1 two_vectors) 0) = elems (two_vectors 1)"
    "Capacity (snd (assign_copy plain_nat 0 1 two_vectors) 0) =
      (if Capacity (two_vectors 0) < Size (two_vectors 1) then Size (two_vectors 1)
       else Capacity (two_vectors 0))"
    by blast+
  from b plain_nat_nothrow have fb: "fst (assign_copy plain_nat 1 0 two_vectors) = None" by blast
  then have "assign_copy plain_nat 1 0 two_vectors = (None, snd (assign_copy plain_nat 1 0 two_vectors))"
    by (metis prod.collapse)
  with b have rb: "elems (snd (assign_copy plain_nat 1 0 two_vectors) 1) = elems (two_vectors 0)"
    by blast
  have bb: "buffer_m (data_v (snd (assign_copy plain_nat 1 0 two_vectors) 1)) = [Some 7, Some 8, None]"
    by code_simp
  from a have s: "assign_copy plain_nat 1 1 two_vectors = (None, two_vectors)"
    by (simp add: assign_copy_def)
  have c: "(if Capacity (two_vectors 0) < Size (two_vectors 1) then Size (two_vectors 1)
       else Capacity (two_vectors 0)) = 3"
    by (simp add: two_vectors_def Capacity_def Size_def RawMemory_Capacity_def mk_vector_def)
  from i0 i1 fa ra fb rb bb s c e0 e1 show ?thesis
    by (simp add: plain_nat_value_semantics plain_nat_nothrow)
qed

section \<open>The invariant under every operation\<close>

lemma Vector_default_inv: "Vector_inv Vector_default"
  by (simp add: Vector_inv_def Vector_default_def RawMemory_default_def)

lemma Vector_sized_inv:
  assumes "Vector_sized E n = Inr v"
  shows "Vector_inv v \<and> size_v v = n \<and> capacity_m (data_v v) = n"
proof -
  from assms obtain d where d: "RawMemory_sized E n = Inr d"
    by (auto simp: Vector_sized_def split: sum.splits)
  with assms have ok0: "fst (uninitialized_value_construct_n E (buffer_m d) 0 n) = None"
    by (auto simp: Vector_sized_def case_prod_unfold split: option.splits)
  have "n \<le> length (buffer_m d)"
  proof (cases n)
    case 0
    then show ?thesis by simp
  next
    case (Suc m)
    then have "0 < n" by simp
    from uvc_range [OF ok0 this] show ?thesis by simp
  qed
  from exact_block [OF d this] have dd: "d = \<lparr>buffer_m = replicate n None, capacity_m = n\<rparr>" .
  let ?u = "uninitialized_value_construct_n E (replicate n None) 0 n"
  from assms d dd have ok: "fst ?u = None"
    and v: "v = \<lparr>data_v = \<lparr>buffer_m = snd ?u, capacity_m = n\<rparr>, size_v = n\<rparr>"
    by (auto simp: Vector_sized_def case_prod_unfold split: option.splits)
  have "snd ?u ! k \<noteq> None" if "k < n" for k
    using uvc_success [OF ok, of k] that by simp
  then show ?thesis by (simp add: v Vector_inv_iff)
qed

lemma Swap_inv:
  "Vector_inv a \<Longrightarrow> Vector_inv b \<Longrightarrow> Vector_inv (fst (Swap (a, b))) \<and> Vector_inv (snd (Swap (a, b)))"
  by (simp add: Swap_eq)

lemma Erase_inv_any: "Vector_inv v \<Longrightarrow> Vector_inv (snd (Erase E i v))"
proof -
  assume inv: "Vector_inv v"
  let ?buf = "buffer_m (data_v v)"
  let ?b = "snd (std_move E ?buf (Suc i) (size_v v) i)"
  have "?b ! k \<noteq> None" if "k < size_v v" for k
    using that inv std_move_shape [of k ?buf E "Suc i" "size_v v" i]
    by (auto simp: Vector_inv_iff)
  with inv show ?thesis
    by (auto simp: Erase_def Let_def case_prod_unfold Vector_inv_iff split: option.splits)
qed

lemma no_wrap_block:
  assumes "RawMemory_sized E n = Inr nd" and "no_wrap E n"
  shows "nd = \<lparr>buffer_m = replicate n None, capacity_m = n\<rparr>"
  using assms
  by (auto simp: RawMemory_sized_def Allocate_def no_wrap_def split: if_splits alloc.splits)

lemma Reserve_inv:
  assumes inv: "Vector_inv v" and nw: "no_wrap E n"
  shows "Vector_inv (snd (Reserve E n v)) \<and> size_v (snd (Reserve E n v)) = size_v v \<and>
         (fst (Reserve E n v) = None \<longrightarrow> n \<le> capacity_m (data_v (snd (Reserve E n v))))"
proof (cases "capacity_m (data_v v) < n")
  case False
  with inv show ?thesis by (simp add: Reserve_def)
next
  case True
  let ?buf = "buffer_m (data_v v)"
  from inv have len: "size_v v \<le> length ?buf" "length ?buf = capacity_m (data_v v)"
    and lv: "\<And>k. k < size_v v \<Longrightarrow> ?buf ! k \<noteq> None"
    by (auto simp: Vector_inv_iff)
  show ?thesis
  proof (cases "RawMemory_sized E n")
    case (Inl e)
    with True inv show ?thesis by (simp add: Reserve_def)
  next
    case (Inr nd)
    from no_wrap_block [OF Inr nw] have nd: "nd = \<lparr>buffer_m = replicate n None, capacity_m = n\<rparr>" .
    let ?r = "CopyOrMoveNElem E ?buf 0 (size_v v) (replicate n None) 0"
    have o: "fst (snd ?r) ! k \<noteq> None" if "k < size_v v" for k
      using CopyOrMove_src_live [of k ?buf E 0 "size_v v" "replicate n None" 0] that len lv [of k]
      by simp
    have s: "snd (snd ?r) ! k \<noteq> None" if "fst ?r = None" "k < size_v v" for k
      using CopyOrMove_success_live [of E ?buf 0 "size_v v" "replicate n None" 0 k] that True len
      by simp
    from True Inr nd len o s inv show ?thesis
      by (auto simp: Reserve_def case_prod_unfold RawMemory_Swap_def Vector_inv_iff
               split: option.splits)
  qed
qed

lemma Resize_inv:
  assumes inv: "Vector_inv v" and nw: "no_wrap E n"
  shows "Vector_inv (snd (Resize E n v))"
proof -
  let ?buf = "buffer_m (data_v v)"
  from inv have len: "size_v v \<le> length ?buf" "length ?buf = capacity_m (data_v v)"
    and lv: "\<And>k. k < size_v v \<Longrightarrow> ?buf ! k \<noteq> None"
    by (auto simp: Vector_inv_iff)
  consider "n = size_v v" | "n < size_v v" | "size_v v < n" by linarith
  then show ?thesis
  proof cases
    case 1
    with inv show ?thesis by (simp add: Resize_def)
  next
    case 2
    have "destroy_n ?buf n (size_v v - n) ! k \<noteq> None" if "k < n" for k
      using that 2 len lv [of k] by (simp add: nth_destroy_n)
    with 2 inv show ?thesis
      by (auto simp: Resize_def Vector_inv_iff)
  next
    case 3
    let ?v1 = "snd (Reserve E n v)"
    let ?b1 = "buffer_m (data_v ?v1)"
    let ?u = "uninitialized_value_construct_n E ?b1 (size_v v) (n - size_v v)"
    from Reserve_inv [OF inv nw] have i1: "Vector_inv ?v1" and n1: "size_v ?v1 = size_v v"
      and c1: "fst (Reserve E n v) = None \<Longrightarrow> n \<le> capacity_m (data_v ?v1)"
      by auto
    from i1 n1 have l1: "length ?b1 = capacity_m (data_v ?v1)"
      and lv1: "\<And>k. k < size_v v \<Longrightarrow> ?b1 ! k \<noteq> None"
      by (auto simp: Vector_inv_iff)
    have u1: "snd ?u ! k \<noteq> None" if "k < size_v v" for k
      using uvc_outside [of k "size_v v" "n - size_v v" E ?b1] that lv1 [of k] by simp
    have u2: "snd ?u ! k \<noteq> None"
      if "fst (Reserve E n v) = None" "fst ?u = None" "k < n" for k
    proof (cases "k < size_v v")
      case True
      then show ?thesis by (rule u1)
    next
      case False
      with uvc_success [OF that(2), of k] that(3) c1 [OF that(1)] l1 show ?thesis by auto
    qed
    from 3 i1 n1 c1 l1 u1 u2 show ?thesis
      by (auto simp: Resize_def case_prod_unfold Vector_inv_iff split: option.splits)
  qed
qed

lemma assign_copy_inv:
  assumes "Vector_inv (st this)" and "Vector_inv (st that)" and "Vector_inv (st a)"
  shows "Vector_inv (snd (assign_copy E this that st) a)"
proof (cases "this = that")
  case True
  with assms show ?thesis by (simp add: assign_copy_def)
next
  case ne: False
  show ?thesis
  proof (cases "capacity_m (data_v (st this)) < size_v (st that)")
    case True
    with ne assms Vector_copy_inv [of E "st that"] show ?thesis
      by (auto simp: assign_copy_unfold split: sum.splits)
  next
    case False
    then have "size_v (st that) \<le> capacity_m (data_v (st this))" by simp
    from assign_copy_reuse_inv [OF assms(1,2) this, of E] ne False assms(3) show ?thesis
      by (simp add: assign_copy_unfold)
  qed
qed

lemma assign_move_inv:
  assumes "Vector_inv (st this)" and "Vector_inv (st that)" and "Vector_inv (st a)"
  shows "Vector_inv (assign_move this that st a)"
  using assms by (simp add: assign_move_def Swap_at_def Swap_eq)

lemma apply_op_size:
  assumes "Vector_inv v" and "apply_op E x v = (None, v')"
  shows "size_v v' = (if is_push x then size_v v + 1 else size_v v - 1)"
proof (cases "is_push x")
  case True
  from push_D [OF assms(2) True] obtain args r where "Emplace E (size_v v) args v = (Inr r, v')"
    by blast
  from Emplace_capacity [OF assms(1) this] True show ?thesis by simp
next
  case False
  then have "x = PopOp" by (cases x) simp_all
  with assms(2) show ?thesis by (auto simp: PopBack_def)
qed

lemma run_count:
  assumes "Vector_inv v" and "run E ops v = Inr v'"
  shows "Vector_inv v' \<and> size_v v' = running_count ops (size_v v)"
  using assms
proof (induction ops arbitrary: v)
  case Nil
  then show ?case by simp
next
  case (Cons x ops)
  from Cons.prems(2) obtain v1 where a: "apply_op E x v = (None, v1)" and r: "run E ops v1 = Inr v'"
    by (auto split: prod.splits option.splits)
  from apply_op_inv [OF Cons.prems(1), of E x] a have i1: "Vector_inv v1" by simp
  from apply_op_size [OF Cons.prems(1) a] Cons.IH [OF i1 r] show ?case by simp
qed

lemma run_append:
  "run E (xs @ ys) v = (case run E xs v of Inl e \<Rightarrow> Inl e | Inr w \<Rightarrow> run E ys w)"
  by (induction xs arbitrary: v) (auto split: prod.splits option.splits)

lemma run_prefix:
  assumes "run E ops v = Inr v'"
  shows "\<exists>w. run E (take k ops) v = Inr w"
proof -
  from assms have "run E (take k ops @ drop k ops) v = Inr v'" by simp
  then show ?thesis
    unfolding run_append by (cases "run E (take k ops) v") auto
qed

lemma running_count_ge:
  "n + length (filter is_push ops) - length (filter (\<lambda>x. \<not> is_push x) ops) \<le> running_count ops n"
proof (induction ops arbitrary: n)
  case Nil
  then show ?case by simp
next
  case (Cons x ops)
  show ?case
  proof (cases "is_push x")
    case True
    with Cons.IH [of "n + 1"] show ?thesis by simp
  next
    case False
    with Cons.IH [of "n - 1"] show ?thesis by simp
  qed
qed

subsection \<open>Length and capacity, whatever the block\<close>

text \<open>
  The operations keep \<open>size \<le> capacity\<close> on every vector that has it, also on one
  whose block is shorter than its capacity says.
\<close>

lemma Emplace_shift_fields:
  "size_v (snd (Emplace_shift E i args v)) = size_v v \<and>
   capacity_m (data_v (snd (Emplace_shift E i args v))) = capacity_m (data_v v)"
  by (simp add: Emplace_shift_def case_prod_unfold split: sum.splits option.splits)

lemma Emplace_realloc_fields:
  "size_v (fst (snd (Emplace_realloc E i args v))) = size_v v \<and>
   capacity_m (data_v (fst (snd (Emplace_realloc E i args v)))) =
     (if fst (Emplace_realloc E i args v) = None then grown v else capacity_m (data_v v))"
proof (cases "RawMemory_sized E (grown v)")
  case (Inl e)
  then show ?thesis by (simp add: Emplace_realloc_def grown_def [symmetric])
next
  case (Inr nd)
  from RawMemory_sized_D [OF Inr] have "capacity_m nd = grown v" by simp
  with Inr show ?thesis
    by (simp add: Emplace_realloc_def grown_def [symmetric] case_prod_unfold RawMemory_Swap_def
             split: sum.splits option.splits)
qed

lemma Emplace_le:
  assumes "size_v v \<le> capacity_m (data_v v)"
  shows "size_v (snd (Emplace E i args v)) \<le> capacity_m (data_v (snd (Emplace E i args v)))"
proof -
  have g: "size_v v < grown v" by (simp add: grown_def)
  from assms g Emplace_shift_fields [of E i args v] Emplace_realloc_fields [of E i args v]
  show ?thesis
    by (auto simp: Emplace_def Let_def case_prod_unfold split: sum.splits option.splits)
qed

lemma Reserve_fields:
  "size_v (snd (Reserve E n v)) = size_v v \<and>
   capacity_m (data_v v) \<le> capacity_m (data_v (snd (Reserve E n v))) \<and>
   (fst (Reserve E n v) = None \<longrightarrow> n \<le> capacity_m (data_v (snd (Reserve E n v))))"
proof (cases "RawMemory_sized E n")
  case (Inl e)
  then show ?thesis by (simp add: Reserve_def)
next
  case (Inr nd)
  from RawMemory_sized_D [OF Inr] have "capacity_m nd = n" by simp
  with Inr show ?thesis
    by (simp add: Reserve_def case_prod_unfold RawMemory_Swap_def split: option.splits)
qed

lemma Reserve_le:
  assumes "size_v v \<le> capacity_m (data_v v)"
  shows "size_v (snd (Reserve E n v)) \<le> capacity_m (data_v (snd (Reserve E n v)))"
  using assms Reserve_fields [of E n v] by simp

lemma Resize_le:
  assumes "size_v v \<le> capacity_m (data_v v)"
  shows "size_v (snd (Resize E n v)) \<le> capacity_m (data_v (snd (Resize E n v)))"
  using assms Reserve_fields [of E n v]
  by (auto simp: Resize_def case_prod_unfold split: option.splits)

lemma PopBack_le:
  "size_v v \<le> capacity_m (data_v v) \<Longrightarrow> size_v (PopBack v) \<le> capacity_m (data_v (PopBack v))"
  by (auto simp: PopBack_def)

lemma Erase_le:
  "size_v v \<le> capacity_m (data_v v) \<Longrightarrow>
   size_v (snd (Erase E i v)) \<le> capacity_m (data_v (snd (Erase E i v)))"
  by (auto simp: Erase_def Let_def case_prod_unfold split: option.splits)

lemma assign_copy_reuse_le:
  assumes "size_v t \<le> capacity_m (data_v t)" and "\<not> capacity_m (data_v t) < size_v oth"
  shows "size_v (snd (assign_copy_reuse E t oth))
           \<le> capacity_m (data_v (snd (assign_copy_reuse E t oth)))"
  using assms by (simp add: assign_copy_reuse_def case_prod_unfold split: option.splits)

lemma Vector_copy_le:
  "Vector_copy E other = Inr c \<Longrightarrow> size_v c \<le> capacity_m (data_v c)"
proof -
  assume a: "Vector_copy E other = Inr c"
  then obtain d where d: "RawMemory_sized E (size_v other) = Inr d"
    by (auto simp: Vector_copy_def split: sum.splits)
  from RawMemory_sized_D [OF d] have "capacity_m d = size_v other" by simp
  with a d show ?thesis
    by (auto simp: Vector_copy_def case_prod_unfold split: option.splits)
qed

lemma assign_copy_le:
  assumes "size_v (st this) \<le> capacity_m (data_v (st this))"
    and "size_v (st a) \<le> capacity_m (data_v (st a))"
  shows "size_v (snd (assign_copy E this that st) a)
           \<le> capacity_m (data_v (snd (assign_copy E this that st) a))"
proof (cases "this = that")
  case True
  with assms show ?thesis by (simp add: assign_copy_def)
next
  case ne: False
  show ?thesis
  proof (cases "capacity_m (data_v (st this)) < size_v (st that)")
    case True
    with ne assms Vector_copy_le [of E "st that"] show ?thesis
      by (auto simp: assign_copy_unfold split: sum.splits)
  next
    case False
    from assign_copy_reuse_le [OF assms(1) False, of E] ne False assms(2) show ?thesis
      by (simp add: assign_copy_unfold)
  qed
qed

lemma lp64_nat_wraps: "operator_new lp64_nat 2305843009213693952 = Short 0"
  by (simp add: lp64_nat_def size_t_new_def)

text \<open>
  Claim C8, as stated, equates the size after a sequence of \<^verbatim>\<open>PushBack\<close> and
  \<^verbatim>\<open>PopBack\<close> calls with the number of pushes minus the number of pops, floored
  at \<open>0\<close>. A \<^verbatim>\<open>PopBack\<close> on an empty vector removes nothing, so it must not be
  counted: after a pop and then a push on an empty vector the size is \<open>1\<close>, and
  pushes minus pops is \<open>0\<close>.
\<close>

theorem push_pop_count_counterexample:
  "run plain_nat [PopOp, PushMoveOp 7] Vector_default = Inr (mk_vector [7] 0) \<and>
   Size (mk_vector [7::nat] 0) = 1 \<and> pushes_minus_pops [PopOp, PushMoveOp (7::nat)] = 0"
proof -
  have "run plain_nat [PopOp, PushMoveOp 7] Vector_default = Inr (mk_vector [7] 0)"
    by code_simp
  then show ?thesis
    by (simp add: Size_def mk_vector_def pushes_minus_pops_def)
qed

text \<open>
  Claim C8, amended. The invariant \<open>Vector_inv\<close> contains \<open>size \<le> capacity\<close>, and says
  in addition that the block has \<open>capacity\<close> slots of which the first \<open>size\<close> hold
  live objects. A vector that a constructor returns satisfies it, and every
  public operation that modifies a vector keeps it, whether the operation
  returns or throws: the copy and move constructors, both assignment operators,
  \<^verbatim>\<open>EmplaceBack\<close>, both \<^verbatim>\<open>PushBack\<close>, \<^verbatim>\<open>PopBack\<close>, \<^verbatim>\<open>Emplace\<close>, both \<^verbatim>\<open>Insert\<close>, \<^verbatim>\<open>Erase\<close>
  and \<^verbatim>\<open>Swap\<close>, and also \<^verbatim>\<open>Resize(n)\<close> and \<^verbatim>\<open>Reserve(n)\<close> when the byte count of a
  block for \<open>n\<close> elements does not wrap. When it wraps, \<^verbatim>\<open>Reserve\<close> can return with
  a capacity that its block does not have; the part \<open>size \<le> capacity\<close> of the
  invariant is kept even then: every operation keeps it on every vector that has
  it, for every count and every block. For every finite sequence of \<^verbatim>\<open>PushBack\<close>
  and \<^verbatim>\<open>PopBack\<close> calls that runs from an empty vector without a throw, the size
  afterwards is the running count that adds one for each push and takes one
  away for each pop without going below \<open>0\<close>; it is at least the number of
  pushes minus the number of pops; and after every prefix of the sequence the
  size is the running count of the prefix and is at most the capacity. When
  nothing throws, such a run returns.
\<close>

theorem invariant_preserved:
  assumes "Vector_inv (v :: 'a Vector)" and "Vector_inv w" and "Vector_inv (st this)"
    and "Vector_inv (st that)"
  shows "Vector_inv (Vector_default :: 'a Vector) \<and>
         (\<forall>n u. Vector_sized E n = Inr u \<longrightarrow> Vector_inv u) \<and>
         (\<forall>u. Vector_copy E v = Inr u \<longrightarrow> Vector_inv u) \<and>
         Vector_inv (fst (Vector_move v)) \<and> Vector_inv (snd (Vector_move v)) \<and>
         Vector_inv (snd (assign_copy E this that st) this) \<and>
         Vector_inv (snd (assign_copy E this that st) that) \<and>
         Vector_inv (assign_move this that st this) \<and>
         Vector_inv (assign_move this that st that) \<and>
         (\<forall>n. no_wrap E n \<longrightarrow> Vector_inv (snd (Resize E n v))) \<and>
         (\<forall>n. no_wrap E n \<longrightarrow> Vector_inv (snd (Reserve E n v))) \<and>
         (\<forall>args. Vector_inv (snd (EmplaceBack E args v))) \<and>
         (\<forall>c. Vector_inv (snd (PushBack_copy E c v))) \<and>
         (\<forall>y. Vector_inv (snd (PushBack_move E y v))) \<and>
         Vector_inv (PopBack v) \<and>
         (\<forall>i args. Vector_inv (snd (Emplace E i args v))) \<and>
         (\<forall>i c. Vector_inv (snd (Insert_copy E i c v))) \<and>
         (\<forall>i y. Vector_inv (snd (Insert_move E i y v))) \<and>
         (\<forall>i. Vector_inv (snd (Erase E i v))) \<and>
         Vector_inv (fst (Swap (v, w))) \<and> Vector_inv (snd (Swap (v, w))) \<and>
         (\<forall>u :: 'a Vector. Vector_inv u \<longrightarrow> Size u \<le> Capacity u) \<and>
         (\<forall>u :: 'a Vector. Size u \<le> Capacity u \<longrightarrow>
            (\<forall>n. Size (snd (Resize E n u)) \<le> Capacity (snd (Resize E n u))) \<and>
            (\<forall>n. Size (snd (Reserve E n u)) \<le> Capacity (snd (Reserve E n u))) \<and>
            (\<forall>args. Size (snd (EmplaceBack E args u)) \<le> Capacity (snd (EmplaceBack E args u))) \<and>
            (\<forall>c. Size (snd (PushBack_copy E c u)) \<le> Capacity (snd (PushBack_copy E c u))) \<and>
            (\<forall>y. Size (snd (PushBack_move E y u)) \<le> Capacity (snd (PushBack_move E y u))) \<and>
            Size (PopBack u) \<le> Capacity (PopBack u) \<and>
            (\<forall>i args. Size (snd (Emplace E i args u)) \<le> Capacity (snd (Emplace E i args u))) \<and>
            (\<forall>i c. Size (snd (Insert_copy E i c u)) \<le> Capacity (snd (Insert_copy E i c u))) \<and>
            (\<forall>i y. Size (snd (Insert_move E i y u)) \<le> Capacity (snd (Insert_move E i y u))) \<and>
            (\<forall>i. Size (snd (Erase E i u)) \<le> Capacity (snd (Erase E i u))) \<and>
            (\<forall>c. Vector_copy E u = Inr c \<longrightarrow> Size c \<le> Capacity c) \<and>
            Size (fst (Vector_move u)) \<le> Capacity (fst (Vector_move u)) \<and>
            Size (snd (Vector_move u)) \<le> Capacity (snd (Vector_move u)) \<and>
            (\<forall>u'. Size u' \<le> Capacity u' \<longrightarrow>
               Size (fst (Swap (u, u'))) \<le> Capacity (fst (Swap (u, u'))) \<and>
               Size (snd (Swap (u, u'))) \<le> Capacity (snd (Swap (u, u'))))) \<and>
         (\<forall>s :: 'a objects.
            Size (s this) \<le> Capacity (s this) \<and> Size (s that) \<le> Capacity (s that) \<longrightarrow>
            Size (snd (assign_copy E this that s) this)
              \<le> Capacity (snd (assign_copy E this that s) this) \<and>
            Size (snd (assign_copy E this that s) that)
              \<le> Capacity (snd (assign_copy E this that s) that) \<and>
            Size (assign_move this that s this) \<le> Capacity (assign_move this that s this) \<and>
            Size (assign_move this that s that) \<le> Capacity (assign_move this that s that)) \<and>
         (\<forall>ops v'. run E ops Vector_default = Inr v' \<longrightarrow>
            Size v' = running_count ops 0 \<and> pushes_minus_pops ops \<le> Size v' \<and>
            (\<forall>k. \<exists>u. run E (take k ops) Vector_default = Inr u \<and>
                  Size u = running_count (take k ops) 0 \<and> Size u \<le> Capacity u)) \<and>
         (nothrow E \<longrightarrow>
            (\<forall>ops. (\<forall>x\<in>set ops. \<forall>j. x \<noteq> PushCopyOp (Own j)) \<longrightarrow>
                   (\<exists>v'. run E ops Vector_default = Inr v')))"
proof -
  note sc = Size_def Capacity_def RawMemory_Capacity_def
  have le: "Size u \<le> Capacity u" if "Vector_inv u" for u :: "'a Vector"
    using that by (simp add: Vector_inv_iff sc)
  have ctor: "\<forall>n u. Vector_sized E n = Inr u \<longrightarrow> Vector_inv u"
    using Vector_sized_inv by blast
  have copy: "\<forall>u. Vector_copy E v = Inr u \<longrightarrow> Vector_inv u"
    using Vector_copy_inv by blast
  have move: "Vector_inv (fst (Vector_move v))" "Vector_inv (snd (Vector_move v))"
    using assms(1) by (simp_all add: Vector_move_def Swap_eq Vector_default_inv)
  have ac: "Vector_inv (snd (assign_copy E this that st) this)"
    "Vector_inv (snd (assign_copy E this that st) that)"
    using assms(3,4) by (simp_all add: assign_copy_inv)
  have am: "Vector_inv (assign_move this that st this)" "Vector_inv (assign_move this that st that)"
    using assms(3,4) by (simp_all add: assign_move_inv)
  have rs: "\<forall>n. no_wrap E n \<longrightarrow> Vector_inv (snd (Resize E n v))"
    "\<forall>n. no_wrap E n \<longrightarrow> Vector_inv (snd (Reserve E n v))"
    using assms(1) by (simp_all add: Resize_inv Reserve_inv)
  have em: "\<forall>i args. Vector_inv (snd (Emplace E i args v))"
    using assms(1) by (simp add: Emplace_inv)
  then have eb: "\<forall>args. Vector_inv (snd (EmplaceBack E args v))"
    and ins: "\<forall>i c. Vector_inv (snd (Insert_copy E i c v))"
      "\<forall>i y. Vector_inv (snd (Insert_move E i y v))"
    by (simp_all add: EmplaceBack_def Insert_copy_def Insert_move_def)
  have pb: "\<forall>c. Vector_inv (snd (PushBack_copy E c v))" "\<forall>y. Vector_inv (snd (PushBack_move E y v))"
    using apply_op_inv [OF assms(1), of E "PushCopyOp c" for c]
      apply_op_inv [OF assms(1), of E "PushMoveOp y" for y]
    by simp_all
  have pop: "Vector_inv (PopBack v)"
    using apply_op_inv [OF assms(1), of E PopOp] by simp
  have er: "\<forall>i. Vector_inv (snd (Erase E i v))"
    using assms(1) by (simp add: Erase_inv_any)
  have sw: "Vector_inv (fst (Swap (v, w)))" "Vector_inv (snd (Swap (v, w)))"
    using assms(1,2) by (simp_all add: Swap_eq)
  have num: "(\<forall>n. Size (snd (Resize E n u)) \<le> Capacity (snd (Resize E n u))) \<and>
            (\<forall>n. Size (snd (Reserve E n u)) \<le> Capacity (snd (Reserve E n u))) \<and>
            (\<forall>args. Size (snd (EmplaceBack E args u)) \<le> Capacity (snd (EmplaceBack E args u))) \<and>
            (\<forall>c. Size (snd (PushBack_copy E c u)) \<le> Capacity (snd (PushBack_copy E c u))) \<and>
            (\<forall>y. Size (snd (PushBack_move E y u)) \<le> Capacity (snd (PushBack_move E y u))) \<and>
            Size (PopBack u) \<le> Capacity (PopBack u) \<and>
            (\<forall>i args. Size (snd (Emplace E i args u)) \<le> Capacity (snd (Emplace E i args u))) \<and>
            (\<forall>i c. Size (snd (Insert_copy E i c u)) \<le> Capacity (snd (Insert_copy E i c u))) \<and>
            (\<forall>i y. Size (snd (Insert_move E i y u)) \<le> Capacity (snd (Insert_move E i y u))) \<and>
            (\<forall>i. Size (snd (Erase E i u)) \<le> Capacity (snd (Erase E i u))) \<and>
            (\<forall>c. Vector_copy E u = Inr c \<longrightarrow> Size c \<le> Capacity c) \<and>
            Size (fst (Vector_move u)) \<le> Capacity (fst (Vector_move u)) \<and>
            Size (snd (Vector_move u)) \<le> Capacity (snd (Vector_move u)) \<and>
            (\<forall>u'. Size u' \<le> Capacity u' \<longrightarrow>
               Size (fst (Swap (u, u'))) \<le> Capacity (fst (Swap (u, u'))) \<and>
               Size (snd (Swap (u, u'))) \<le> Capacity (snd (Swap (u, u'))))"
    if "Size u \<le> Capacity u" for u :: "'a Vector"
  proof -
    from that have u: "size_v u \<le> capacity_m (data_v u)" by (simp add: sc)
    have e: "Size (snd (Emplace E i args u)) \<le> Capacity (snd (Emplace E i args u))" for i args
      using Emplace_le [OF u, of E i args] by (simp add: sc)
    have p1: "Size (snd (PushBack_copy E c u)) \<le> Capacity (snd (PushBack_copy E c u))" for c
      using e [of "size_v u" "ConstRef c"]
      by (simp add: PushBack_copy_def EmplaceBack_def case_prod_unfold split: sum.splits)
    have p2: "Size (snd (PushBack_move E y u)) \<le> Capacity (snd (PushBack_move E y u))" for y
      using e [of "size_v u" "Rvalue y"]
      by (simp add: PushBack_move_def EmplaceBack_def case_prod_unfold split: sum.splits)
    have r1: "Size (snd (Resize E n u)) \<le> Capacity (snd (Resize E n u))" for n
      using Resize_le [OF u, of E n] by (simp add: sc)
    have r2: "Size (snd (Reserve E n u)) \<le> Capacity (snd (Reserve E n u))" for n
      using Reserve_le [OF u, of E n] by (simp add: sc)
    have po: "Size (PopBack u) \<le> Capacity (PopBack u)"
      using PopBack_le [OF u] by (simp add: sc)
    have er: "Size (snd (Erase E i u)) \<le> Capacity (snd (Erase E i u))" for i
      using Erase_le [OF u, of E i] by (simp add: sc)
    have cp: "Vector_copy E u = Inr c \<longrightarrow> Size c \<le> Capacity c" for c
      using Vector_copy_le [of E u c] by (simp add: sc)
    have mv: "Size (fst (Vector_move u)) \<le> Capacity (fst (Vector_move u))"
      "Size (snd (Vector_move u)) \<le> Capacity (snd (Vector_move u))"
      using u by (simp_all add: sc Vector_move_def Swap_eq Vector_default_def RawMemory_default_def)
    have sw: "Size (fst (Swap (u, u'))) \<le> Capacity (fst (Swap (u, u'))) \<and>
        Size (snd (Swap (u, u'))) \<le> Capacity (snd (Swap (u, u')))" if "Size u' \<le> Capacity u'" for u'
      using u that by (simp add: sc Swap_eq)
    from e p1 p2 r1 r2 po er cp mv sw show ?thesis
      by (simp add: EmplaceBack_def Insert_copy_def Insert_move_def)
  qed
  have asg: "Size (snd (assign_copy E this that s) this)
              \<le> Capacity (snd (assign_copy E this that s) this) \<and>
            Size (snd (assign_copy E this that s) that)
              \<le> Capacity (snd (assign_copy E this that s) that) \<and>
            Size (assign_move this that s this) \<le> Capacity (assign_move this that s this) \<and>
            Size (assign_move this that s that) \<le> Capacity (assign_move this that s that)"
    if "Size (s this) \<le> Capacity (s this) \<and> Size (s that) \<le> Capacity (s that)"
    for s :: "'a objects"
  proof -
    from that have a: "size_v (s this) \<le> capacity_m (data_v (s this))"
      and b: "size_v (s that) \<le> capacity_m (data_v (s that))"
      by (simp_all add: sc)
    from assign_copy_le [of s this this E that] assign_copy_le [of s this that E that] a b
    show ?thesis
      by (simp add: sc assign_move_def Swap_at_def Swap_eq)
  qed
  have sq: "Size v' = running_count ops 0 \<and> pushes_minus_pops ops \<le> Size v' \<and>
      (\<forall>k. \<exists>u. run E (take k ops) Vector_default = Inr u \<and>
            Size u = running_count (take k ops) 0 \<and> Size u \<le> Capacity u)"
    if r: "run E ops Vector_default = Inr v'" for ops v'
  proof -
    from run_count [OF Vector_default_inv r]
    have n: "Size v' = running_count ops 0" by (simp add: Size_def Vector_default_def)
    from running_count_ge [of 0 ops] have "pushes_minus_pops ops \<le> running_count ops 0"
      by (simp add: pushes_minus_pops_def)
    moreover have "\<exists>u. run E (take k ops) Vector_default = Inr u \<and>
        Size u = running_count (take k ops) 0 \<and> Size u \<le> Capacity u" for k
    proof -
      from run_prefix [OF r, of k] obtain u where u: "run E (take k ops) Vector_default = Inr u" ..
      from run_count [OF Vector_default_inv u] le [of u] u show ?thesis
        by (auto simp: Size_def Vector_default_def)
    qed
    ultimately show ?thesis using n by simp
  qed
  have tot: "nothrow E \<longrightarrow> (\<forall>ops. (\<forall>x\<in>set ops. \<forall>j. x \<noteq> PushCopyOp (Own j)) \<longrightarrow>
      (\<exists>v'. run E ops Vector_default = Inr v'))"
    using run_total [OF _ Vector_default_inv] by blast
  from Vector_default_inv ctor copy move ac am rs eb pb pop em ins er sw le num asg sq tot
  show ?thesis by (intro conjI) blast+
qed

theorem invariant_preserved_witness:
  "Vector_inv (mk_vector [1, 2, 3::nat] 1) \<and> Vector_inv (mk_vector [7::nat] 0) \<and>
   Vector_inv (two_vectors 0) \<and> Vector_inv (two_vectors 1) \<and> nothrow plain_nat \<and>
   no_wrap plain_nat 6 \<and> no_wrap throwing_copy_nat 6 \<and>
   Vector_inv (snd (Emplace plain_nat 1 (Args (Some 9)) (mk_vector [1, 2, 3::nat] 1))) \<and>
   Vector_inv (snd (Resize plain_nat 6 (mk_vector [1, 2, 3::nat] 1))) \<and>
   Vector_inv (snd (Resize throwing_copy_nat 6 (mk_vector [1, 2, 3::nat] 1))) \<and>
   fst (Resize throwing_copy_nat 6 (mk_vector [1, 2, 3::nat] 1)) = Some ElemThrow \<and>
   (\<exists>v'. run plain_nat [PushMoveOp 1, PopOp, PopOp, PushMoveOp 2, PushMoveOp 3] Vector_default = Inr v' \<and>
         Size v' = 2 \<and> Size v' \<le> Capacity v') \<and>
   running_count [PushMoveOp (1::nat), PopOp, PopOp, PushMoveOp 2, PushMoveOp 3] 0 = 2 \<and>
   pushes_minus_pops [PushMoveOp (1::nat), PopOp, PopOp, PushMoveOp 2, PushMoveOp 3] = 1 \<and>
   \<not> no_wrap lp64_nat (2 ^ 61) \<and>
   Reserve lp64_nat (2 ^ 61) Vector_default
     = (None, \<lparr>data_v = \<lparr>buffer_m = [], capacity_m = 2 ^ 61\<rparr>, size_v = 0\<rparr>) \<and>
   \<not> Vector_inv (snd (Reserve lp64_nat (2 ^ 61) Vector_default)) \<and>
   Size (snd (Reserve lp64_nat (2 ^ 61) Vector_default))
     \<le> Capacity (snd (Reserve lp64_nat (2 ^ 61) Vector_default)) \<and>
   Resize lp64_nat 1 (snd (Reserve lp64_nat (2 ^ 61) Vector_default))
     = (Some UndefinedBehaviour, snd (Reserve lp64_nat (2 ^ 61) Vector_default)) \<and>
   fst (PushBack_copy lp64_nat (Outside 5) (snd (Reserve lp64_nat (2 ^ 61) Vector_default)))
     = Some UndefinedBehaviour"
proof -
  let ?v = "mk_vector [1, 2, 3::nat] 1"
  let ?ops = "[PushMoveOp (1::nat), PopOp, PopOp, PushMoveOp 2, PushMoveOp 3]"
  let ?w = "\<lparr>data_v = \<lparr>buffer_m = ([] :: nat option list), capacity_m = 2 ^ 61\<rparr>, size_v = 0\<rparr>"
  have i0: "Vector_inv (two_vectors 0)" and i1: "Vector_inv (two_vectors 1)"
    by (simp_all add: two_vectors_def Vector_inv_mk_vector)
  note s = invariant_preserved [OF Vector_inv_mk_vector Vector_inv_mk_vector i0 i1,
      where ?xs2 = "[1, 2, 3::nat]" and ?spare2 = 1 and ?xs1 = "[7::nat]" and ?spare1 = 0]
  note p = s [where E = plain_nat] and t = s [where E = throwing_copy_nat]
    and l = s [where E = lp64_nat]
  have nw: "no_wrap plain_nat 6" "no_wrap throwing_copy_nat 6"
    by (simp_all add: no_wrap_def throwing_copy_nat_def)
  have ok: "\<forall>x\<in>set ?ops. \<forall>j. x \<noteq> PushCopyOp (Own j)" by simp
  from p have tot: "nothrow plain_nat \<longrightarrow>
      (\<forall>ops. (\<forall>x\<in>set ops. \<forall>j. x \<noteq> PushCopyOp (Own j)) \<longrightarrow>
             (\<exists>v'. run plain_nat ops Vector_default = Inr v'))"
    by (elim conjE)
  from p have cnt: "\<forall>ops v'. run plain_nat ops Vector_default = Inr v' \<longrightarrow>
        Size v' = running_count ops 0 \<and> pushes_minus_pops ops \<le> Size v' \<and>
        (\<forall>k. \<exists>u. run plain_nat (take k ops) Vector_default = Inr u \<and>
              Size u = running_count (take k ops) 0 \<and> Size u \<le> Capacity u)"
    by (elim conjE)
  from p have em: "\<forall>i args. Vector_inv (snd (Emplace plain_nat i args ?v))"
    by (elim conjE)
  from p have rs: "\<forall>n. no_wrap plain_nat n \<longrightarrow> Vector_inv (snd (Resize plain_nat n ?v))"
    by (elim conjE)
  from t have rt: "\<forall>n. no_wrap throwing_copy_nat n \<longrightarrow>
      Vector_inv (snd (Resize throwing_copy_nat n ?v))"
    by (elim conjE)
  from tot plain_nat_nothrow ok obtain v' where r: "run plain_nat ?ops Vector_default = Inr v'"
    by blast
  with cnt have n: "Size v' = running_count ?ops 0" by blast
  from cnt r have "\<exists>u. run plain_nat (take 5 ?ops) Vector_default = Inr u \<and>
      Size u = running_count (take 5 ?ops) 0 \<and> Size u \<le> Capacity u"
    by blast
  with r have c: "Size v' \<le> Capacity v'" by simp
  have rc: "running_count ?ops 0 = 2" by simp
  from r n c rc have sq: "\<exists>v'. run plain_nat ?ops Vector_default = Inr v' \<and> Size v' = 2 \<and>
      Size v' \<le> Capacity v'"
    by auto
  have th: "fst (Resize throwing_copy_nat 6 ?v) = Some ElemThrow" by code_simp
  have pm: "pushes_minus_pops ?ops = 1" by (simp add: pushes_minus_pops_def)
  from em rs rt nw have inv3: "Vector_inv (snd (Emplace plain_nat 1 (Args (Some 9)) ?v))"
    "Vector_inv (snd (Resize plain_nat 6 ?v))" "Vector_inv (snd (Resize throwing_copy_nat 6 ?v))"
    by blast+
  txt \<open>A count whose byte size wraps: \<open>2 ^ 61\<close> elements of \<open>8\<close> bytes.\<close>
  have w2: "\<not> no_wrap lp64_nat (2 ^ 61)"
    by (simp add: no_wrap_def lp64_nat_wraps)
  have w3: "Reserve lp64_nat (2 ^ 61) Vector_default = (None, ?w)"
    by (simp add: Reserve_def RawMemory_sized_def Allocate_def lp64_nat_wraps Vector_default_def
        RawMemory_default_def CopyOrMoveNElem_def RawMemory_Swap_def)
  have w4: "Resize lp64_nat 1 ?w = (Some UndefinedBehaviour, ?w)"
    by (simp add: Resize_def Reserve_def set_buffer_def)
  have w5: "\<not> Vector_inv ?w" by (simp add: Vector_inv_def)
  have w7: "fst (PushBack_copy lp64_nat (Outside 5) ?w) = Some UndefinedBehaviour"
    by (simp add: PushBack_copy_def EmplaceBack_def Emplace_def lp64_nat_def)
  have "Size (Vector_default :: nat Vector) \<le> Capacity Vector_default"
    by (simp add: Size_def Capacity_def RawMemory_Capacity_def Vector_default_def)
  from l [THEN conjunct2, THEN conjunct2, THEN conjunct2, THEN conjunct2, THEN conjunct2, THEN conjunct2, THEN conjunct2, THEN conjunct2, THEN conjunct2, THEN conjunct2, THEN conjunct2, THEN conjunct2, THEN conjunct2, THEN conjunct2, THEN conjunct2, THEN conjunct2, THEN conjunct2, THEN conjunct2, THEN conjunct2, THEN conjunct2, THEN conjunct2, THEN conjunct2, THEN conjunct1, rule_format, OF this,
      THEN conjunct2, THEN conjunct1, rule_format, of "2 ^ 61"]
  have w6: "Size (snd (Reserve lp64_nat (2 ^ 61) Vector_default))
      \<le> Capacity (snd (Reserve lp64_nat (2 ^ 61) Vector_default))" .
  from inv3 sq th rc pm i0 i1 nw w2 w3 w4 w5 w6 w7 show ?thesis
    by (simp add: Vector_inv_mk_vector plain_nat_nothrow)
qed

end
